theory Spec2Isabelle
  imports Complex_Main
begin

section \<open>Python and numpy values\<close>

text \<open>
  The module DNANDU.py works on a Python string, Python integers and numpy scalars.
  Python integers are unbounded and are modelled by \<open>int\<close>; the cells of the
  congruence matrix are numpy 64-bit integers that count positions of the sequence and
  are modelled by \<open>int\<close> as well. Floating-point scores are idealised as exact
  rationals (\<open>Fin q\<close>), extended by the three special values a numpy division can
  produce. A raised exception is the left summand of the result.
  A sequence is a \<open>string\<close>; the DNA alphabet is ASCII, so a character is a symbol.
\<close>

datatype py_error = ZeroDivisionError | ValueError | IndexError

datatype npfloat = Fin rat | PosInf | NegInf | NaN

type_synonym matrix = "int list list"

text \<open>Python's \<open>a / b\<close> on two Python integers raises on a zero divisor.\<close>

definition py_truediv :: "int \<Rightarrow> int \<Rightarrow> py_error + rat" where
  "py_truediv a b = (if b = 0 then Inl ZeroDivisionError else Inr (of_int a / of_int b))"

text \<open>
  numpy's \<open>x / n\<close> with a numpy scalar \<open>x\<close> does not raise on a zero divisor: it
  warns and returns \<open>nan\<close> for \<open>0 / 0\<close> and a signed infinity otherwise.
\<close>

definition np_truediv :: "rat \<Rightarrow> int \<Rightarrow> npfloat" where
  "np_truediv x n =
     (if n = 0 then (if x = 0 then NaN else if 0 < x then PosInf else NegInf)
      else Fin (x / of_int n))"

text \<open>Python's \<open>i % p\<close> on integers; for a positive \<open>p\<close> it is \<open>mod\<close>.\<close>

definition py_mod :: "int \<Rightarrow> int \<Rightarrow> py_error + int" where
  "py_mod i p = (if p = 0 then Inl ZeroDivisionError else Inr (i mod p))"

text \<open>\<open>range(a, b)\<close>: the integers from \<open>a\<close> up to, and without, \<open>b\<close>.\<close>

definition py_range :: "int \<Rightarrow> int \<Rightarrow> int list" where
  "py_range a b = map (\<lambda>k. a + int k) [0..<nat (b - a)]"

text \<open>
  A \<open>for\<close> loop over a list of indices whose body updates the loop state or raises;
  the first exception leaves the loop.
\<close>

fun py_for :: "('i \<Rightarrow> 's \<Rightarrow> py_error + 's) \<Rightarrow> 'i list \<Rightarrow> 's \<Rightarrow> py_error + 's" where
  "py_for body [] s = Inr s"
| "py_for body (i # js) s =
     (case body i s of Inl e \<Rightarrow> Inl e | Inr s' \<Rightarrow> py_for body js s')"

text \<open>\<open>np.zeros([r, c], dtype=int)\<close> rejects a negative dimension.\<close>

definition np_zeros :: "int \<Rightarrow> int \<Rightarrow> py_error + matrix" where
  "np_zeros r c =
     (if r < 0 \<or> c < 0 then Inl ValueError
      else Inr (replicate (nat r) (replicate (nat c) 0)))"


text \<open>
  Python's \<open>a > b\<close> on floats: every comparison with \<open>nan\<close> is false.
\<close>

fun np_gt :: "npfloat \<Rightarrow> npfloat \<Rightarrow> bool" where
  "np_gt (Fin a) (Fin b) = (b < a)"
| "np_gt (Fin a) NegInf = True"
| "np_gt PosInf (Fin b) = True"
| "np_gt PosInf NegInf = True"
| "np_gt _ _ = False"

text \<open>
  \<open>max(xs)\<close> raises on an empty list; otherwise it keeps the first element and
  replaces it only by a strictly greater one, so it returns the first of equal maxima.
\<close>

definition py_max :: "npfloat list \<Rightarrow> py_error + npfloat" where
  "py_max xs =
     (case xs of
        [] \<Rightarrow> Inl ValueError
      | x # rest \<Rightarrow> Inr (fold (\<lambda>item m. if np_gt item m then item else m) rest x))"

text \<open>
  \<open>xs.index(v)\<close>: the first position holding \<open>v\<close>, and a \<open>ValueError\<close> when there
  is none. Python matches an element that is the object \<open>v\<close> itself or equal to it;
  the module only looks up values it has just taken from the same list.
\<close>

fun py_index :: "'a list \<Rightarrow> 'a \<Rightarrow> py_error + nat" where
  "py_index [] v = Inl ValueError"
| "py_index (x # xs) v =
     (if x = v then Inr 0
      else case py_index xs v of Inl e \<Rightarrow> Inl e | Inr i \<Rightarrow> Inr (Suc i))"

text \<open>\<open>xs[i]\<close>: a negative index counts from the end, an index out of range raises.\<close>

definition py_get :: "'a list \<Rightarrow> int \<Rightarrow> py_error + 'a" where
  "py_get xs i =
     (if 0 \<le> i \<and> i < int (length xs) then Inr (xs ! nat i)
      else if i < 0 \<and> - int (length xs) \<le> i then Inr (xs ! nat (int (length xs) + i))
      else Inl IndexError)"

text \<open>
  \<open>xs[i:j]\<close>: a negative bound counts from the end, and both bounds are clamped to
  the list, so a slice never raises.
\<close>

definition py_slice :: "'a list \<Rightarrow> int \<Rightarrow> int \<Rightarrow> 'a list" where
  "py_slice xs i j =
     (let n = int (length xs);
          i' = (if i < 0 then max (i + n) 0 else min i n);
          j' = (if j < 0 then max (j + n) 0 else min j n)
      in take (nat (j' - i')) (drop (nat i') xs))"

text \<open>
  \<open>sorted(xs)\<close> is a stable sort that compares with \<open><\<close>: here insertion sort, each
  element going in front of the first one that is not smaller than it.
\<close>

fun py_insort :: "npfloat \<Rightarrow> npfloat list \<Rightarrow> npfloat list" where
  "py_insort x [] = [x]"
| "py_insort x (y # ys) = (if np_gt x y then y # py_insort x ys else x # y # ys)"

definition py_sorted :: "npfloat list \<Rightarrow> npfloat list" where
  "py_sorted xs = foldr py_insort xs []"

text \<open>
  \<open>np.amax(CM, axis=0)\<close>: the maximum of every column, computed as the elementwise
  maximum of the rows.
\<close>

definition amax_axis0 :: "matrix \<Rightarrow> int list" where
  "amax_axis0 CM =
     (case CM of
        [] \<Rightarrow> []
      | row # rows \<Rightarrow> fold (\<lambda>r acc. map2 max acc r) rows row)"

text \<open>
  \<open>CM.argmax(axis=0)\<close>: for every column the index of the first row that holds the
  maximum of the column.
\<close>

definition first_argmax :: "int list \<Rightarrow> nat" where
  "first_argmax col = length (takeWhile (\<lambda>x. x \<noteq> Max (set col)) col)"

definition argmax_axis0 :: "matrix \<Rightarrow> nat list" where
  "argmax_axis0 CM =
     map (\<lambda>j. first_argmax (map (\<lambda>row. row ! j) CM)) [0..<length (hd CM)]"

section \<open>The congruence matrix\<close>

text \<open>\<open>CM[r, m] = CM[r, m] + 1\<close>\<close>

definition incr :: "matrix \<Rightarrow> nat \<Rightarrow> nat \<Rightarrow> matrix" where
  "incr CM r m = CM[r := (CM ! r)[m := CM ! r ! m + 1]]"

text \<open>The body of the loop of \<open>getCongruenceMatrix\<close> at position \<open>i\<close>.\<close>

definition cm_body :: "string \<Rightarrow> int \<Rightarrow> int \<Rightarrow> matrix \<Rightarrow> py_error + matrix" where
  "cm_body seq p i CM =
     (case py_mod i p of
        Inl e \<Rightarrow> Inl e
      | Inr m \<Rightarrow>
          if seq ! nat i = CHR ''G'' then Inr (incr CM 0 (nat m))
          else if seq ! nat i = CHR ''C'' then Inr (incr CM 1 (nat m))
          else if seq ! nat i = CHR ''A'' then Inr (incr CM 2 (nat m))
          else Inr (incr CM 3 (nat m)))"

definition getCongruenceMatrix :: "string \<Rightarrow> int \<Rightarrow> py_error + matrix" where
  "getCongruenceMatrix seq p =
     (let n = int (length seq) in
      case np_zeros 4 p of
        Inl e \<Rightarrow> Inl e
      | Inr CM \<Rightarrow> py_for (cm_body seq p) (py_range 0 n) CM)"

text \<open>
  The row of the matrix a symbol is counted in: G, C, A, and one row for every other
  symbol. It names the case distinction of \<open>cm_body\<close> in the statements below.
\<close>

definition bucket :: "char \<Rightarrow> nat" where
  "bucket ch =
     (if ch = CHR ''G'' then 0 else if ch = CHR ''C'' then 1
      else if ch = CHR ''A'' then 2 else 3)"

text \<open>
  The number of positions below \<open>k\<close> of residue \<open>c\<close> modulo \<open>p\<close> whose symbol is
  counted in row \<open>r\<close>.
\<close>

definition cell_count :: "string \<Rightarrow> nat \<Rightarrow> nat \<Rightarrow> nat \<Rightarrow> nat \<Rightarrow> int" where
  "cell_count seq p k r c =
     (\<Sum>i<k. if i mod p = c \<and> bucket (seq ! i) = r then 1 else 0)"

text \<open>The number of positions below \<open>k\<close> of residue \<open>c\<close> modulo \<open>p\<close>.\<close>

definition class_count :: "nat \<Rightarrow> nat \<Rightarrow> nat \<Rightarrow> int" where
  "class_count p k c = (\<Sum>i<k. if i mod p = c then 1 else 0)"

section \<open>The two scores\<close>

text \<open>
  \<open>sum\<close> over the column maxima starts from the Python integer 0, so for a matrix
  without columns the quotient is a division of Python integers, which raises on a
  zero divisor; otherwise the sum is a numpy integer and the division is numpy's.
\<close>

definition getPerfectLevelSeq :: "string \<Rightarrow> int \<Rightarrow> py_error + npfloat" where
  "getPerfectLevelSeq seq p =
     (let lenS = int (length seq) in
      case getCongruenceMatrix seq p of
        Inl e \<Rightarrow> Inl e
      | Inr CM \<Rightarrow>
          let cols = amax_axis0 CM; sumMaxCols = sum_list cols in
          if cols = [] then
            (case py_truediv sumMaxCols lenS of Inl e \<Rightarrow> Inl e | Inr PR \<Rightarrow> Inr (Fin PR))
          else Inr (np_truediv (of_int sumMaxCols) lenS))"

text \<open>
  \<open>avg = n/(4*p)\<close> divides Python integers. Once it is computed, \<open>p\<close> is positive,
  the loops run and \<open>DU\<close> is a numpy float, so the last division is numpy's.
\<close>

definition getNDUSeq :: "string \<Rightarrow> int \<Rightarrow> py_error + npfloat" where
  "getNDUSeq seq p =
     (let n = int (length seq) in
      case getCongruenceMatrix seq p of
        Inl e \<Rightarrow> Inl e
      | Inr f \<Rightarrow>
          (case py_truediv n (4 * p) of
             Inl e \<Rightarrow> Inl e
           | Inr avg \<Rightarrow>
               let DU = fold (\<lambda>i DU. fold (\<lambda>j DU.
                              let diff = of_int (f ! i ! j) - avg in DU + diff\<^sup>2)
                            [0..<nat p] DU) [0..<4] 0
               in Inr (np_truediv DU n)))"

definition getNDUSeqEquation :: "string \<Rightarrow> int \<Rightarrow> py_error + npfloat" where
  "getNDUSeqEquation seq p =
     (let n = int (length seq) in
      case getCongruenceMatrix seq p of
        Inl e \<Rightarrow> Inl e
      | Inr f \<Rightarrow>
          let sumV = fold (\<lambda>i sumV. fold (\<lambda>j sumV.
                            let e = f ! i ! j in sumV + e\<^sup>2)
                          [0..<nat p] sumV) [0..<4] (0::int)
          in (case py_truediv (n * n) (4 * p) of
                Inl e \<Rightarrow> Inl e
              | Inr q \<Rightarrow>
                  let DU = of_int sumV - q in Inr (np_truediv DU n)))"

section \<open>Searching a range of periods\<close>

text \<open>
  The limit of the periods when the caller gives none: \<open>math.floor(lenS/2)\<close>, and
  100 when that is larger. The source repeats these lines in each function.
\<close>

definition default_limit :: "int \<Rightarrow> int" where
  "default_limit lenS = (let mp = lenS div 2 in if mp > 100 then 100 else mp)"

text \<open>
  The loop of \<open>getMaxPRSeq\<close> scores the limit \<open>mp\<close> in every round, not the loop
  variable \<open>p\<close>, as the source does.
\<close>

definition getMaxPRSeq :: "string \<Rightarrow> py_error + int \<times> npfloat" where
  "getMaxPRSeq seq =
     (let lenS = int (length seq); mp = default_limit lenS in
      case py_for (\<lambda>p prs. case getPerfectLevelSeq seq mp of
                              Inl e \<Rightarrow> Inl e
                            | Inr pr \<Rightarrow> Inr (prs @ [pr])) (py_range 2 mp) [] of
        Inl e \<Rightarrow> Inl e
      | Inr prs \<Rightarrow>
          (case py_max prs of
             Inl e \<Rightarrow> Inl e
           | Inr maxpr \<Rightarrow>
               (case py_index prs maxpr of
                  Inl e \<Rightarrow> Inl e
                | Inr idx \<Rightarrow> Inr (int idx + 2, maxpr))))"

text \<open>The loop shared by \<open>getMaxNDUSeq\<close> and \<open>getNDUAllSeq\<close>, after \<open>NDUs=[0]\<close>.\<close>

definition ndu_scan :: "string \<Rightarrow> int \<Rightarrow> py_error + npfloat list" where
  "ndu_scan seq mp =
     py_for (\<lambda>p NDUs. case getNDUSeq seq p of
                          Inl e \<Rightarrow> Inl e
                        | Inr ndu \<Rightarrow> Inr (NDUs @ [ndu])) (py_range 2 mp) [Fin 0]"

definition getMaxNDUSeq :: "string \<Rightarrow> int option \<Rightarrow> py_error + int \<times> npfloat" where
  "getMaxNDUSeq seq mp0 =
     (let lenS = int (length seq);
          mp = (case mp0 of None \<Rightarrow> default_limit lenS | Some m \<Rightarrow> m) in
      case ndu_scan seq mp of
        Inl e \<Rightarrow> Inl e
      | Inr NDUs \<Rightarrow>
          (case py_max NDUs of
             Inl e \<Rightarrow> Inl e
           | Inr maxNDU \<Rightarrow>
               (case py_index NDUs maxNDU of
                  Inl e \<Rightarrow> Inl e
                | Inr idx \<Rightarrow> Inr (int idx + 1, maxNDU))))"

definition getNDUAllSeq :: "string \<Rightarrow> int option \<Rightarrow> py_error + npfloat list" where
  "getNDUAllSeq seq mp0 =
     (let lenS = int (length seq);
          mp = (case mp0 of None \<Rightarrow> default_limit lenS | Some m \<Rightarrow> m) in
      ndu_scan seq mp)"

definition getNDURangeSeq :: "string \<Rightarrow> int \<Rightarrow> int \<Rightarrow> py_error + npfloat list" where
  "getNDURangeSeq seq p1 p2 =
     py_for (\<lambda>p NDUs. case getNDUSeq seq p of
                          Inl e \<Rightarrow> Inl e
                        | Inr ndu \<Rightarrow> Inr (NDUs @ [ndu])) (py_range p1 (p2 + 1)) []"

text \<open>
  \<open>getLargests\<close> takes the slice \<open>pt[l-3:l]\<close> whatever \<open>n\<close> is, and then reads its
  first \<open>n\<close> elements. The \<open>print\<close> of the list is left out.
\<close>

definition getLargests :: "npfloat list \<Rightarrow> int \<Rightarrow> py_error + npfloat list \<times> nat list" where
  "getLargests ps n =
     (let l = int (length ps);
          pt = py_sorted ps;
          ps_n = py_slice pt (l - 3) l in
      case py_for (\<lambda>i ps_idx. case py_get ps_n i of
                                 Inl e \<Rightarrow> Inl e
                               | Inr a \<Rightarrow>
                                   (case py_index ps a of
                                      Inl e \<Rightarrow> Inl e
                                    | Inr idx \<Rightarrow> Inr (ps_idx @ [idx]))) (py_range 0 n) [] of
        Inl e \<Rightarrow> Inl e
      | Inr ps_idx \<Rightarrow> Inr (ps_n, ps_idx))"

definition getTopMaxPeriods :: "string \<Rightarrow> int \<Rightarrow> int \<Rightarrow> int \<Rightarrow> py_error + int list \<times> int" where
  "getTopMaxPeriods seq p1 p2 n =
     (case getNDURangeSeq seq p1 p2 of
        Inl e \<Rightarrow> Inl e
      | Inr psRange \<Rightarrow>
          (case getLargests psRange n of
             Inl e \<Rightarrow> Inl e
           | Inr (maxP, maxIdx) \<Rightarrow>
               let maxPeriods = map (\<lambda>x. int x + p1) maxIdx in
               (case py_get maxPeriods (n - 1) of
                  Inl e \<Rightarrow> Inl e
                | Inr maxPeriod \<Rightarrow> Inr (maxPeriods, maxPeriod))))"

definition getPRRangeSeq :: "string \<Rightarrow> int \<Rightarrow> int \<Rightarrow> py_error + npfloat list" where
  "getPRRangeSeq seq p1 p2 =
     py_for (\<lambda>period prRange. case getPerfectLevelSeq seq period of
                                 Inl e \<Rightarrow> Inl e
                               | Inr perfect \<Rightarrow> Inr (prRange @ [perfect])) (py_range p1 p2) []"

definition getMaxPerfect :: "string \<Rightarrow> int \<Rightarrow> int \<Rightarrow> py_error + int \<times> npfloat" where
  "getMaxPerfect seq p1 p2 =
     (case py_for (\<lambda>period prRange. case getPerfectLevelSeq seq period of
                                 Inl e \<Rightarrow> Inl e
                               | Inr perfect \<Rightarrow> Inr (prRange @ [perfect])) (py_range p1 p2) [] of
        Inl e \<Rightarrow> Inl e
      | Inr prRange \<Rightarrow>
          (case py_max prRange of
             Inl e \<Rightarrow> Inl e
           | Inr maxPR \<Rightarrow>
               (case py_index prRange maxPR of
                  Inl e \<Rightarrow> Inl e
                | Inr maxPRIdx \<Rightarrow> Inr (int maxPRIdx + p1, maxPR))))"

definition getTopMaxPerfects :: "string \<Rightarrow> int \<Rightarrow> int \<Rightarrow> int \<Rightarrow> py_error + int list \<times> int" where
  "getTopMaxPerfects seq p1 p2 n =
     (case getPRRangeSeq seq p1 p2 of
        Inl e \<Rightarrow> Inl e
      | Inr prRange \<Rightarrow>
          (case getLargests prRange n of
             Inl e \<Rightarrow> Inl e
           | Inr (maxP, maxIdx) \<Rightarrow>
               let maxPeriods = map (\<lambda>x. int x + p1) maxIdx in
               (case py_get maxPeriods (n - 1) of
                  Inl e \<Rightarrow> Inl e
                | Inr maxPeriod \<Rightarrow> Inr (maxPeriods, maxPeriod))))"

section \<open>The consensus repeat and the sliding windows\<close>

text \<open>
  The loop of \<open>getRepeatSeq\<close> appends one symbol for each column and cannot raise:
  it is a \<open>map\<close> over the columns.
\<close>

definition getRepeatSeq :: "string \<Rightarrow> int \<Rightarrow> py_error + string" where
  "getRepeatSeq seq p =
     (case getCongruenceMatrix seq p of
        Inl e \<Rightarrow> Inl e
      | Inr CM \<Rightarrow>
          let idx = argmax_axis0 CM in
          Inr (map (\<lambda>i. if idx ! nat i = 0 then CHR ''G''
                         else if idx ! nat i = 1 then CHR ''C''
                         else if idx ! nat i = 2 then CHR ''A''
                         else CHR ''T'') (py_range 0 p)))"

text \<open>
  \<open>W\<close> is \<open>None\<close> when the caller gives no window size. The second test of
  \<open>W is None\<close> in the source comes after \<open>W\<close> has been set and does nothing.
\<close>

definition getNDUWindowSeq :: "string \<Rightarrow> int \<Rightarrow> int option \<Rightarrow> py_error + npfloat list" where
  "getNDUWindowSeq seq p W0 =
     (let lenS = int (length seq);
          W = (case W0 of None \<Rightarrow> 5 * p | Some w \<Rightarrow> w);
          e = lenS - W + 1 in
      py_for (\<lambda>i nduWin.
                let t = i + W; seqT = py_slice seq i t in
                case getNDUSeq seqT p of
                  Inl e \<Rightarrow> Inl e
                | Inr ndu \<Rightarrow> Inr (nduWin @ [ndu])) (py_range 0 e) [])"

section \<open>The congruence matrix counts positions\<close>

lemma py_for_snoc:
  "py_for body (js @ [j]) s =
     (case py_for body js s of Inl e \<Rightarrow> Inl e | Inr s' \<Rightarrow> body j s')"
  by (induction js arbitrary: s) (auto split: sum.splits)

lemma py_range_0_Suc: "py_range 0 (int (Suc k)) = py_range 0 (int k) @ [int k]"
  by (simp add: py_range_def del: of_nat_Suc)

lemma cm_body_incr:
  assumes "0 < p"
  shows "cm_body seq (int p) (int i) CM = Inr (incr CM (bucket (seq ! i)) (i mod p))"
  using assms
  by (simp add: cm_body_def py_mod_def bucket_def zmod_int [symmetric] del: of_nat_mod)

lemma incr_nth:
  assumes "r < length CM" "c < length (CM ! r)"
  shows "incr CM r' c' ! r ! c = (if r = r' \<and> c = c' then CM ! r ! c + 1 else CM ! r ! c)"
proof (cases "r = r'")
  case True
  with assms show ?thesis
    by (cases "c = c'") (simp_all add: incr_def)
next
  case False
  then show ?thesis by (simp add: incr_def)
qed

lemma incr_shape:
  "length (incr CM r' c') = length CM"
  "r < length CM \<Longrightarrow> length (incr CM r' c' ! r) = length (CM ! r)"
  by (cases "r = r'"; simp add: incr_def)+

lemma cm_loop:
  assumes "0 < p"
  shows "\<exists>CM. py_for (cm_body seq (int p)) (py_range 0 (int k)) (replicate 4 (replicate p 0)) = Inr CM
           \<and> length CM = 4
           \<and> (\<forall>r<4. length (CM ! r) = p \<and> (\<forall>c<p. CM ! r ! c = cell_count seq p k r c))"
proof (induction k)
  case 0
  show ?case by (simp add: py_range_def cell_count_def)
next
  case (Suc k)
  then obtain CM where
    run: "py_for (cm_body seq (int p)) (py_range 0 (int k)) (replicate 4 (replicate p 0)) = Inr CM"
    and len: "length CM = 4"
    and cells: "\<forall>r<4. length (CM ! r) = p \<and> (\<forall>c<p. CM ! r ! c = cell_count seq p k r c)"
    by blast
  let ?CM' = "incr CM (bucket (seq ! k)) (k mod p)"
  have run': "py_for (cm_body seq (int p)) (py_range 0 (int (Suc k))) (replicate 4 (replicate p 0)) = Inr ?CM'"
    unfolding py_range_0_Suc py_for_snoc run using cm_body_incr [OF assms] by simp
  have "\<forall>r<4. length (?CM' ! r) = p \<and> (\<forall>c<p. ?CM' ! r ! c = cell_count seq p (Suc k) r c)"
  proof (intro allI impI conjI)
    fix r :: nat assume r: "r < 4"
    show "length (?CM' ! r) = p" using r len cells by (simp add: incr_shape)
    fix c assume c: "c < p"
    have "?CM' ! r ! c = (if r = bucket (seq ! k) \<and> c = k mod p then CM ! r ! c + 1 else CM ! r ! c)"
      using r c len cells by (intro incr_nth) auto
    also have "\<dots> = cell_count seq p (Suc k) r c"
      using r c cells by (auto simp: cell_count_def)
    finally show "?CM' ! r ! c = cell_count seq p (Suc k) r c" .
  qed
  with run' len show ?case by (auto simp: incr_shape)
qed

lemma getCongruenceMatrix_cells:
  assumes "1 \<le> p"
  shows "\<exists>CM. getCongruenceMatrix seq p = Inr CM \<and> length CM = 4
           \<and> (\<forall>r<4. length (CM ! r) = nat p
                 \<and> (\<forall>c<nat p. CM ! r ! c = cell_count seq (nat p) (length seq) r c))"
proof -
  have "0 < nat p" using assms by simp
  from cm_loop [OF this, of seq "length seq"] assms show ?thesis
    by (simp add: getCongruenceMatrix_def np_zeros_def)
qed


lemma cell_count_nonneg: "0 \<le> cell_count seq p k r c"
  by (simp add: cell_count_def sum_nonneg)

lemma bucket_less: "bucket ch < 4"
  by (simp add: bucket_def)

lemma class_count_card: "class_count p k c = int (card {i. i < k \<and> i mod p = c})"
proof -
  have "{i. i < k \<and> i mod p = c} = {i \<in> {..<k}. i mod p = c}" by auto
  then show ?thesis
    by (simp add: class_count_def sum.If_cases Int_def)
qed

lemma column_sum: "(\<Sum>r<4. cell_count seq p k r c) = class_count p k c"
proof -
  have "(\<Sum>r<4. cell_count seq p k r c)
      = (\<Sum>i<k. \<Sum>r<4. if i mod p = c \<and> bucket (seq ! i) = r then 1 else 0)"
    unfolding cell_count_def by (rule sum.swap)
  also have "\<dots> = (\<Sum>i<k. if i mod p = c then 1 else 0)"
  proof (rule sum.cong [OF refl])
    fix i
    have "(\<Sum>r<4. if i mod p = c \<and> bucket (seq ! i) = r then 1 else 0)
        = (\<Sum>r\<in>{..<4}. if r = bucket (seq ! i) then (if i mod p = c then 1 else 0) else (0::int))"
      by (intro sum.cong) auto
    also have "\<dots> = (if i mod p = c then 1 else 0)"
      using bucket_less [of "seq ! i"] by (simp only: sum.delta finite_lessThan lessThan_iff if_True)
    finally show "(\<Sum>r<4. if i mod p = c \<and> bucket (seq ! i) = r then 1 else 0)
        = (if i mod p = c then 1 else (0::int))" .
  qed
  finally show ?thesis by (simp add: class_count_def)
qed

lemma class_count_total:
  assumes "0 < p"
  shows "(\<Sum>c<p. class_count p k c) = int k"
proof -
  have "(\<Sum>c<p. class_count p k c) = (\<Sum>i<k. \<Sum>c<p. if i mod p = c then 1 else 0)"
    unfolding class_count_def by (rule sum.swap)
  also have "\<dots> = (\<Sum>i<k. 1)"
  proof (rule sum.cong [OF refl])
    fix i
    have "(\<Sum>c<p. if i mod p = c then 1 else (0::int)) = (\<Sum>c\<in>{..<p}. if c = i mod p then 1 else 0)"
      by (intro sum.cong) auto
    also have "\<dots> = 1" using assms by (simp only: sum.delta finite_lessThan lessThan_iff) simp
    finally show "(\<Sum>c<p. if i mod p = c then 1 else (0::int)) = 1" .
  qed
  finally show ?thesis by simp
qed

lemma class_count_div:
  assumes "c < p"
  shows "class_count p k c = int (k div p) + (if c < k mod p then 1 else 0)"
proof (induction k)
  case 0
  show ?case by (simp add: class_count_def)
next
  case (Suc k)
  have "class_count p (Suc k) c = class_count p k c + (if k mod p = c then 1 else 0)"
    by (simp add: class_count_def)
  with Suc assms show ?case
    by (auto simp: div_Suc mod_Suc split: if_splits)
qed

lemma ceiling_nat_div:
  assumes "0 < p" "n mod p \<noteq> 0"
  shows "\<lceil>(of_nat n / of_nat p :: rat)\<rceil> = int (n div p) + 1"
proof -
  let ?x = "of_nat n / of_nat p :: rat"
  have fl: "\<lfloor>?x\<rfloor> = int (n div p)" by (simp add: floor_divide_of_nat_eq)
  have "?x \<noteq> of_int \<lfloor>?x\<rfloor>"
  proof
    assume "?x = of_int \<lfloor>?x\<rfloor>"
    then have "?x = of_nat (n div p)" using fl by simp
    then have "(of_nat n :: rat) = of_nat (n div p) * of_nat p"
      using assms(1) by (simp add: field_simps)
    then have "n = n div p * p" by (metis of_nat_mult of_nat_eq_iff)
    then show False using assms(2) by (metis mod_mult_self2_is_0)
  qed
  then show ?thesis using fl by (simp add: ceiling_altdef)
qed

lemma sum_list_rows:
  assumes "length CM = 4" "\<forall>r<4. length (CM ! r) = p"
  shows "sum_list (map sum_list CM) = (\<Sum>r<4. \<Sum>c<p. CM ! r ! (c::nat) :: int)"
proof -
  have "sum_list (map sum_list CM) = (\<Sum>r<length CM. sum_list (CM ! r))"
    by (simp add: sum_list_sum_nth atLeast0LessThan)
  also have "\<dots> = (\<Sum>r<4. \<Sum>c<p. CM ! r ! c)"
    using assms by (simp add: sum_list_sum_nth atLeast0LessThan)
  finally show ?thesis .
qed

text \<open>
  Claim C3. For every sequence of length \<open>n\<close> and every period \<open>p \<ge> 1\<close>,
  \<open>getCongruenceMatrix\<close> returns a matrix of four rows of \<open>p\<close> cells, all of them
  non-negative; the sum of all cells is \<open>n\<close>; and the sum of column \<open>c\<close> is the
  number of positions \<open>i < n\<close> with \<open>i mod p = c\<close>, which is the floor or the
  ceiling of \<open>n / p\<close>.
\<close>

theorem congruence_matrix_sums:
  assumes "1 \<le> p"
  shows "\<exists>CM. getCongruenceMatrix seq p = Inr CM \<and> length CM = 4
           \<and> (\<forall>row\<in>set CM. length row = nat p \<and> (\<forall>x\<in>set row. 0 \<le> x))
           \<and> sum_list (map sum_list CM) = int (length seq)
           \<and> (\<forall>c<nat p.
                 (\<Sum>r<4. CM ! r ! c) = int (card {i. i < length seq \<and> i mod nat p = c})
               \<and> ((\<Sum>r<4. CM ! r ! c) = \<lfloor>(of_nat (length seq) / of_int p :: rat)\<rfloor>
                  \<or> (\<Sum>r<4. CM ! r ! c) = \<lceil>(of_nat (length seq) / of_int p :: rat)\<rceil>))"
proof -
  let ?n = "length seq" and ?p = "nat p"
  have p: "0 < ?p" and pp: "of_int p = (of_nat ?p :: rat)" using assms by auto
  from getCongruenceMatrix_cells [OF assms, of seq] obtain CM where
    run: "getCongruenceMatrix seq p = Inr CM" and len: "length CM = 4"
    and cells: "\<forall>r<4. length (CM ! r) = ?p \<and> (\<forall>c<?p. CM ! r ! c = cell_count seq ?p ?n r c)"
    by blast
  have shape: "\<forall>row\<in>set CM. length row = ?p \<and> (\<forall>x\<in>set row. 0 \<le> x)"
  proof
    fix row assume "row \<in> set CM"
    then obtain r where r: "r < 4" "row = CM ! r" using len by (metis in_set_conv_nth)
    have "\<forall>x\<in>set row. 0 \<le> x"
    proof
      fix x assume "x \<in> set row"
      then obtain c where "c < length row" "x = row ! c" by (metis in_set_conv_nth)
      with r cells show "0 \<le> x" by (simp add: cell_count_nonneg)
    qed
    with r cells show "length row = ?p \<and> (\<forall>x\<in>set row. 0 \<le> x)" by simp
  qed
  have col: "(\<Sum>r<4. CM ! r ! c) = class_count ?p ?n c" if "c < ?p" for c
  proof -
    have "(\<Sum>r<4. CM ! r ! c) = (\<Sum>r<4. cell_count seq ?p ?n r c)"
      using cells that by (intro sum.cong) auto
    then show ?thesis by (simp add: column_sum)
  qed
  have "sum_list (map sum_list CM) = (\<Sum>r<4. \<Sum>c<?p. CM ! r ! c)"
    using len cells by (intro sum_list_rows) auto
  also have "\<dots> = (\<Sum>c<?p. \<Sum>r<4. CM ! r ! c)" by (rule sum.swap)
  also have "\<dots> = (\<Sum>c<?p. class_count ?p ?n c)"
    by (intro sum.cong) (auto simp: col)
  also have "\<dots> = int ?n" by (rule class_count_total [OF p])
  finally have total: "sum_list (map sum_list CM) = int ?n" .
  have cols: "(\<Sum>r<4. CM ! r ! c) = int (card {i. i < ?n \<and> i mod ?p = c})
       \<and> ((\<Sum>r<4. CM ! r ! c) = \<lfloor>(of_nat ?n / of_int p :: rat)\<rfloor>
          \<or> (\<Sum>r<4. CM ! r ! c) = \<lceil>(of_nat ?n / of_int p :: rat)\<rceil>)" if c: "c < ?p" for c
  proof (cases "c < ?n mod ?p")
    case True
    then have "?n mod ?p \<noteq> 0" by simp
    from ceiling_nat_div [OF p this] True show ?thesis
      unfolding pp col [OF c] by (simp add: class_count_card [symmetric] class_count_div [OF c])
  next
    case False
    then show ?thesis
      unfolding pp col [OF c]
      by (simp add: class_count_card [symmetric] class_count_div [OF c] floor_divide_of_nat_eq)
  qed
  from run len shape total cols show ?thesis by blast
qed

lemma cm_GATTACA:
  "getCongruenceMatrix ''GATTACA'' 3 = Inr [[1, 0, 0], [0, 0, 1], [1, 2, 0], [1, 0, 1]]"
  by code_simp

theorem congruence_matrix_sums_witness:
  "(1::int) \<le> 3 \<and>
   (\<exists>CM. getCongruenceMatrix ''GATTACA'' 3 = Inr CM \<and> length CM = 4
      \<and> (\<forall>row\<in>set CM. length row = nat 3 \<and> (\<forall>x\<in>set row. 0 \<le> x))
      \<and> sum_list (map sum_list CM) = 7
      \<and> (\<Sum>r<4. CM ! r ! 0) = \<lceil>(7 / 3 :: rat)\<rceil>
      \<and> (\<Sum>r<4. CM ! r ! 1) = \<lfloor>(7 / 3 :: rat)\<rfloor>)"
proof -
  have h: "(1::int) \<le> 3" by simp
  from congruence_matrix_sums [OF h, of "''GATTACA''"] obtain CM where
    run: "getCongruenceMatrix ''GATTACA'' 3 = Inr CM" and len: "length CM = 4"
    and shape: "\<forall>row\<in>set CM. length row = nat 3 \<and> (\<forall>x\<in>set row. 0 \<le> x)"
    and total: "sum_list (map sum_list CM) = int (length ''GATTACA'')"
    by blast
  have eq: "CM = [[1, 0, 0], [0, 0, 1], [1, 2, 0], [1, 0, 1]]"
    using run by (simp add: cm_GATTACA)
  have "(\<Sum>r<4. CM ! r ! 0) = \<lceil>(7 / 3 :: rat)\<rceil>"
    unfolding eq by code_simp
  moreover have "(\<Sum>r<4. CM ! r ! 1) = \<lfloor>(7 / 3 :: rat)\<rfloor>"
    unfolding eq by code_simp
  ultimately show ?thesis using h run len shape total by simp
qed


section \<open>The two formulas of the NDU\<close>

lemma cell_count_total:
  assumes "0 < p"
  shows "(\<Sum>r<4. \<Sum>c<p. cell_count seq p k r c) = int k"
proof -
  have "(\<Sum>r<4. \<Sum>c<p. cell_count seq p k r c) = (\<Sum>c<p. \<Sum>r<4. cell_count seq p k r c)"
    by (rule sum.swap)
  also have "\<dots> = (\<Sum>c<p. class_count p k c)" by (simp add: column_sum)
  also have "\<dots> = int k" by (rule class_count_total [OF assms])
  finally show ?thesis .
qed

lemma fold_plus_sum:
  fixes g :: "nat \<Rightarrow> 'a::comm_monoid_add"
  shows "fold (\<lambda>j a. a + g j) [0..<p] a0 = a0 + (\<Sum>j<p. g j)"
  by (induction p) (simp_all add: add.assoc)

lemma fold_fold_plus_sum:
  fixes g :: "nat \<Rightarrow> nat \<Rightarrow> 'a::comm_monoid_add"
  shows "fold (\<lambda>i a. fold (\<lambda>j a. a + g i j) [0..<p] a) [0..<m] a0 = a0 + (\<Sum>i<m. \<Sum>j<p. g i j)"
  by (induction m) (simp_all add: fold_plus_sum add.assoc)

lemma getNDUSeq_value:
  assumes "1 \<le> p" "getCongruenceMatrix seq p = Inr f"
  shows "getNDUSeq seq p =
     Inr (np_truediv (\<Sum>i<4. \<Sum>j<nat p.
            (of_int (f ! i ! j) - of_nat (length seq) / of_int (4 * p))\<^sup>2) (int (length seq)))"
  using assms
  by (simp add: getNDUSeq_def py_truediv_def Let_def fold_fold_plus_sum)

lemma getNDUSeqEquation_value:
  assumes "1 \<le> p" "getCongruenceMatrix seq p = Inr f"
  shows "getNDUSeqEquation seq p =
     Inr (np_truediv (of_int (\<Sum>i<4. \<Sum>j<nat p. (f ! i ! j)\<^sup>2)
            - of_int (int (length seq) * int (length seq)) / of_int (4 * p)) (int (length seq)))"
  using assms
  by (simp add: getNDUSeqEquation_def py_truediv_def Let_def fold_fold_plus_sum)

lemma squared_deviations:
  fixes g :: "nat \<Rightarrow> nat \<Rightarrow> rat"
  shows "(\<Sum>i<4. \<Sum>j<P. (g i j - a)\<^sup>2)
       = (\<Sum>i<4. \<Sum>j<P. (g i j)\<^sup>2) - 2 * a * (\<Sum>i<4. \<Sum>j<P. g i j) + 4 * of_nat P * a\<^sup>2"
proof -
  have "(\<Sum>i<4. \<Sum>j<P. (g i j - a)\<^sup>2)
      = (\<Sum>i<4. \<Sum>j<P. ((g i j)\<^sup>2 - 2 * a * g i j) + a\<^sup>2)"
    by (intro sum.cong refl) (simp add: power2_diff algebra_simps)
  also have "\<dots> = (\<Sum>i<4. (\<Sum>j<P. (g i j)\<^sup>2) - 2 * a * (\<Sum>j<P. g i j) + of_nat P * a\<^sup>2)"
    by (simp add: sum.distrib sum_subtractf sum_distrib_left)
  also have "\<dots> = (\<Sum>i<4. \<Sum>j<P. (g i j)\<^sup>2) - 2 * a * (\<Sum>i<4. \<Sum>j<P. g i j) + 4 * of_nat P * a\<^sup>2"
    by (simp add: sum.distrib sum_subtractf sum_distrib_left)
  finally show ?thesis .
qed

lemma deviation_algebra:
  fixes S n P :: rat
  assumes "0 < P"
  shows "S - 2 * (n / (4 * P)) * n + 4 * P * (n / (4 * P))\<^sup>2 = S - n * n / (4 * P)"
  using assms by (simp add: power2_eq_square field_simps)

text \<open>
  Claim C2. For every non-empty sequence and every period \<open>p \<ge> 1\<close>, the sum of
  squared deviations of \<open>getNDUSeq\<close> and the closed form of \<open>getNDUSeqEquation\<close>
  return the same score. The scores are exact rationals here, so this is the equality
  over exact arithmetic that the floating-point results approximate.
\<close>

theorem ndu_formulas_agree:
  assumes "seq \<noteq> []" "1 \<le> p"
  shows "\<exists>v. getNDUSeq seq p = Inr (Fin v) \<and> getNDUSeqEquation seq p = Inr (Fin v)"
proof -
  let ?n = "length seq" and ?P = "nat p"
  have P: "0 < ?P" and n: "0 < ?n" using assms by auto
  from getCongruenceMatrix_cells [OF assms(2), of seq] obtain f where
    run: "getCongruenceMatrix seq p = Inr f"
    and cells: "\<forall>r<4. length (f ! r) = ?P \<and> (\<forall>c<?P. f ! r ! c = cell_count seq ?P ?n r c)"
    by blast
  let ?a = "of_nat ?n / of_int (4 * p) :: rat"
  let ?g = "\<lambda>i j. of_int (f ! i ! j) :: rat"
  have "(\<Sum>i<4. \<Sum>j<?P. f ! i ! j) = (\<Sum>i<4. \<Sum>j<?P. cell_count seq ?P ?n i j)"
    using cells by (intro sum.cong refl) auto
  then have "(\<Sum>i<4. \<Sum>j<?P. f ! i ! j) = int ?n" by (simp add: cell_count_total [OF P])
  then have "of_int (\<Sum>i<4. \<Sum>j<?P. f ! i ! j) = (of_nat ?n :: rat)" by simp
  then have total: "(\<Sum>i<4. \<Sum>j<?P. ?g i j) = of_nat ?n" by simp
  have "(\<Sum>i<4. \<Sum>j<?P. (?g i j - ?a)\<^sup>2)
      = (\<Sum>i<4. \<Sum>j<?P. (?g i j)\<^sup>2) - 2 * ?a * of_nat ?n + 4 * of_nat ?P * ?a\<^sup>2"
    unfolding squared_deviations total ..
  also have "\<dots> = (\<Sum>i<4. \<Sum>j<?P. (?g i j)\<^sup>2) - of_int (int ?n * int ?n) / of_int (4 * p)"
    using deviation_algebra [of "of_int p" _ "of_nat ?n"] assms(2) by simp
  also have "(\<Sum>i<4. \<Sum>j<?P. (?g i j)\<^sup>2) = of_int (\<Sum>i<4. \<Sum>j<?P. (f ! i ! j)\<^sup>2)"
    by simp
  finally have eq: "(\<Sum>i<4. \<Sum>j<?P. (?g i j - ?a)\<^sup>2)
      = of_int (\<Sum>i<4. \<Sum>j<?P. (f ! i ! j)\<^sup>2) - of_int (int ?n * int ?n) / of_int (4 * p)" .
  show ?thesis
    unfolding getNDUSeq_value [OF assms(2) run] getNDUSeqEquation_value [OF assms(2) run] eq
    using n by (simp add: np_truediv_def)
qed

theorem ndu_formulas_agree_witness:
  "''GATTACA'' \<noteq> [] \<and> (1::int) \<le> 3
   \<and> getNDUSeq ''GATTACA'' 3 = Inr (Fin (59 / 84))
   \<and> getNDUSeqEquation ''GATTACA'' 3 = Inr (Fin (59 / 84))"
proof -
  have h1: "''GATTACA'' \<noteq> []" and h2: "(1::int) \<le> 3" by simp_all
  have v: "getNDUSeq ''GATTACA'' 3 = Inr (Fin (59 / 84))" by code_simp
  from ndu_formulas_agree [OF h1 h2] v show ?thesis by auto
qed


section \<open>The perfect level\<close>

lemma four_rows:
  assumes "length (CM :: matrix) = 4"
  shows "CM = [CM ! 0, CM ! 1, CM ! 2, CM ! 3]"
  using assms by (intro nth_equalityI) (auto simp: nth_Cons' less_Suc_eq numeral_eq_Suc)

lemma amax_axis0_four:
  assumes "length CM = 4" "\<forall>r<4. length (CM ! r) = P"
  shows "length (amax_axis0 CM) = P"
    and "j < P \<Longrightarrow> amax_axis0 CM ! j
           = max (max (max (CM ! 0 ! j) (CM ! 1 ! j)) (CM ! 2 ! j)) (CM ! 3 ! j)"
proof -
  have len: "length (CM ! 0) = P" "length (CM ! 1) = P" "length (CM ! 2) = P" "length (CM ! 3) = P"
    using assms(2) by simp_all
  have eq: "amax_axis0 CM
      = map2 max (map2 max (map2 max (CM ! 0) (CM ! 1)) (CM ! 2)) (CM ! 3)"
    by (subst four_rows [OF assms(1)]) (simp add: amax_axis0_def)
  show "length (amax_axis0 CM) = P" unfolding eq using len by simp
  show "amax_axis0 CM ! j
           = max (max (max (CM ! 0 ! j) (CM ! 1 ! j)) (CM ! 2 ! j)) (CM ! 3 ! j)" if "j < P"
    unfolding eq using len that by simp
qed

lemma sum_four: "(\<Sum>r<4. g r) = g 0 + g 1 + g 2 + (g (3::nat) :: int)"
  by (simp add: numeral_eq_Suc)

lemma max4_eq_sum:
  fixes a b c d :: int
  assumes "0 \<le> a" "0 \<le> b" "0 \<le> c" "0 \<le> d"
  shows "max (max (max a b) c) d = a + b + c + d \<longleftrightarrow>
         (a = 0 \<and> b = 0 \<and> c = 0) \<or> (a = 0 \<and> b = 0 \<and> d = 0) \<or>
         (a = 0 \<and> c = 0 \<and> d = 0) \<or> (b = 0 \<and> c = 0 \<and> d = 0)"
  using assms by (auto simp: max_def)

lemma cell_count_zero_iff:
  "cell_count seq p k r c = 0 \<longleftrightarrow> \<not> (\<exists>i<k. i mod p = c \<and> bucket (seq ! i) = r)"
  unfolding cell_count_def
  by (subst sum_nonneg_eq_0_iff) auto

lemma class_monochromatic:
  "(cell_count seq p k 0 c = 0 \<and> cell_count seq p k 1 c = 0 \<and> cell_count seq p k 2 c = 0) \<or>
   (cell_count seq p k 0 c = 0 \<and> cell_count seq p k 1 c = 0 \<and> cell_count seq p k 3 c = 0) \<or>
   (cell_count seq p k 0 c = 0 \<and> cell_count seq p k 2 c = 0 \<and> cell_count seq p k 3 c = 0) \<or>
   (cell_count seq p k 1 c = 0 \<and> cell_count seq p k 2 c = 0 \<and> cell_count seq p k 3 c = 0)
   \<longleftrightarrow> (\<forall>i<k. \<forall>i'<k. i mod p = c \<and> i' mod p = c \<longrightarrow> bucket (seq ! i) = bucket (seq ! i'))"
  (is "?L \<longleftrightarrow> ?R")
proof -
  define A where "A r \<longleftrightarrow> (\<exists>i<k. i mod p = c \<and> bucket (seq ! i) = r)" for r
  have zero: "cell_count seq p k r c = 0 \<longleftrightarrow> \<not> A r" for r
    by (simp add: cell_count_zero_iff A_def)
  have R: "?R \<longleftrightarrow> (\<forall>r r'. A r \<and> A r' \<longrightarrow> r = r')"
    unfolding A_def by blast
  have range: "r = 0 \<or> r = 1 \<or> r = 2 \<or> r = 3" if "A r" for r
  proof -
    from that obtain i where "bucket (seq ! i) = r" unfolding A_def by blast
    with bucket_less [of "seq ! i"] show ?thesis by arith
  qed
  have "(\<forall>r r'. A r \<and> A r' \<longrightarrow> r = r') \<longleftrightarrow>
        \<not> (A 0 \<and> A 1) \<and> \<not> (A 0 \<and> A 2) \<and> \<not> (A 0 \<and> A 3) \<and>
        \<not> (A 1 \<and> A 2) \<and> \<not> (A 1 \<and> A 3) \<and> \<not> (A 2 \<and> A 3)" (is "?U \<longleftrightarrow> ?V")
  proof
    assume u: ?U
    have d: "\<not> (A r \<and> A r')" if "r \<noteq> r'" for r r' using u that by blast
    from d [of 0 1] d [of 0 2] d [of 0 3] d [of 1 2] d [of 1 3] d [of 2 3] show ?V by simp
  next
    assume v: ?V
    show ?U
    proof (intro allI impI)
      fix r r' assume "A r \<and> A r'"
      with range [of r] range [of r'] v show "r = r'" by auto
    qed
  qed
  also have "\<dots> \<longleftrightarrow> ?L" unfolding zero by blast
  finally show ?thesis using R by simp
qed

lemma getPerfectLevelSeq_value:
  assumes "1 \<le> p" "getCongruenceMatrix seq p = Inr CM"
    and "length CM = 4" "\<forall>r<4. length (CM ! r) = nat p"
  shows "getPerfectLevelSeq seq p =
     Inr (np_truediv (of_int (\<Sum>j<nat p.
            max (max (max (CM ! 0 ! j) (CM ! 1 ! j)) (CM ! 2 ! j)) (CM ! 3 ! j))) (int (length seq)))"
proof -
  note am = amax_axis0_four [OF assms(3,4)]
  have ne: "amax_axis0 CM \<noteq> []" using am(1) assms(1) by auto
  have "sum_list (amax_axis0 CM) = (\<Sum>j<nat p. amax_axis0 CM ! j)"
    by (simp add: sum_list_sum_nth am(1) atLeast0LessThan)
  also have "\<dots> = (\<Sum>j<nat p. max (max (max (CM ! 0 ! j) (CM ! 1 ! j)) (CM ! 2 ! j)) (CM ! 3 ! j))"
    by (intro sum.cong refl) (simp add: am(2))
  finally show ?thesis
    using ne assms(2) by (simp add: getPerfectLevelSeq_def Let_def)
qed

lemma ratio_bounds:
  fixes M :: int and n :: nat
  assumes "1 \<le> M" "M \<le> int n"
  shows "0 < (of_int M / of_nat n :: rat)"
    and "(of_int M / of_nat n :: rat) \<le> 1"
    and "(of_int M / of_nat n :: rat) = 1 \<longleftrightarrow> M = int n"
proof -
  have n: "0 < n" using assms by linarith
  show "0 < (of_int M / of_nat n :: rat)" using assms n by simp
  have "(of_int M :: rat) \<le> of_int (int n)" using assms(2) by (simp only: of_int_le_iff)
  then show "(of_int M / of_nat n :: rat) \<le> 1" using n by simp
  have "(of_int M :: rat) = of_int (int n) \<longleftrightarrow> M = int n" by (simp only: of_int_eq_iff)
  then show "(of_int M / of_nat n :: rat) = 1 \<longleftrightarrow> M = int n" using n by auto
qed

lemma cell_count_first:
  assumes "0 < k" "0 < p"
  shows "1 \<le> cell_count seq p k (bucket (seq ! 0)) 0"
proof -
  let ?g = "\<lambda>i. if i mod p = 0 \<and> bucket (seq ! i) = bucket (seq ! 0) then 1 else (0::int)"
  have "?g 0 \<le> sum ?g {..<k}"
    by (rule member_le_sum) (use assms in auto)
  then show ?thesis by (simp add: cell_count_def)
qed

text \<open>
  Claim C4. For every non-empty sequence and every period \<open>p \<ge> 1\<close>,
  \<open>getPerfectLevelSeq\<close> returns a value in the interval \<open>(0, 1]\<close>, and the value is
  1 exactly when every residue class is monochromatic: any two positions of the same
  residue modulo \<open>p\<close> fall in the same of the four rows G, C, A, other.
\<close>

theorem perfect_level_range:
  assumes "seq \<noteq> []" "1 \<le> p"
  shows "\<exists>v. getPerfectLevelSeq seq p = Inr (Fin v) \<and> 0 < v \<and> v \<le> 1
           \<and> (v = 1 \<longleftrightarrow> (\<forall>i<length seq. \<forall>i'<length seq.
                  i mod nat p = i' mod nat p \<longrightarrow> bucket (seq ! i) = bucket (seq ! i')))"
proof -
  let ?n = "length seq" and ?P = "nat p"
  have P: "0 < ?P" and n: "0 < ?n" using assms by auto
  from getCongruenceMatrix_cells [OF assms(2), of seq] obtain CM where
    run: "getCongruenceMatrix seq p = Inr CM" and len: "length CM = 4"
    and cells: "\<forall>r<4. length (CM ! r) = ?P \<and> (\<forall>c<?P. CM ! r ! c = cell_count seq ?P ?n r c)"
    by blast
  let ?cc = "cell_count seq ?P ?n"
  let ?m = "\<lambda>j. max (max (max (?cc 0 j) (?cc 1 j)) (?cc 2 j)) (?cc 3 j)"
  let ?M = "\<Sum>j<?P. ?m j"
  have "(\<Sum>j<?P. max (max (max (CM ! 0 ! j) (CM ! 1 ! j)) (CM ! 2 ! j)) (CM ! 3 ! j)) = ?M"
    using cells by (intro sum.cong refl) simp
  with getPerfectLevelSeq_value [OF assms(2) run len] cells n
  have val: "getPerfectLevelSeq seq p = Inr (Fin (of_int ?M / of_nat ?n))"
    by (simp add: np_truediv_def)
  have nonneg: "0 \<le> ?cc r j" for r j by (rule cell_count_nonneg)
  have colsum: "?cc 0 j + ?cc 1 j + ?cc 2 j + ?cc 3 j = class_count ?P ?n j" for j
    using column_sum [of seq ?P ?n j] by (simp add: sum_four)
  have m_le: "?m j \<le> class_count ?P ?n j" for j
    using nonneg [of 0 j] nonneg [of 1 j] nonneg [of 2 j] nonneg [of 3 j] colsum [of j]
    by (simp add: max_def)
  have m_nonneg: "0 \<le> ?m j" for j
    using nonneg [of 0 j] by (simp add: max_def)
  have M_le: "?M \<le> int ?n"
    using sum_mono [of "{..<?P}" ?m "class_count ?P ?n"] m_le class_count_total [OF P, of ?n]
    by simp
  have "1 \<le> ?cc (bucket (seq ! 0)) 0" by (rule cell_count_first [OF n P])
  moreover have "?cc (bucket (seq ! 0)) 0 \<le> ?m 0"
    using bucket_less [of "seq ! 0"]
    by (auto simp: less_Suc_eq numeral_eq_Suc max_def)
  moreover have "?m 0 \<le> ?M"
    by (rule member_le_sum) (use P m_nonneg in auto)
  ultimately have M_pos: "1 \<le> ?M" by linarith
  have one: "?M = int ?n \<longleftrightarrow> (\<forall>j<?P. ?m j = class_count ?P ?n j)"
  proof
    assume eq: "?M = int ?n"
    show "\<forall>j<?P. ?m j = class_count ?P ?n j"
    proof (intro allI impI)
      fix j assume "j < ?P"
      have "sum ?m {..<?P} = sum (class_count ?P ?n) {..<?P}"
        using eq class_count_total [OF P, of ?n] by simp
      then show "?m j = class_count ?P ?n j"
        by (rule sum_mono_inv) (use m_le \<open>j < ?P\<close> in auto)
    qed
  next
    assume "\<forall>j<?P. ?m j = class_count ?P ?n j"
    then have "?M = (\<Sum>j<?P. class_count ?P ?n j)" by (intro sum.cong refl) simp
    then show "?M = int ?n" by (simp add: class_count_total [OF P])
  qed
  have col: "?m j = class_count ?P ?n j \<longleftrightarrow>
      (\<forall>i<?n. \<forall>i'<?n. i mod ?P = j \<and> i' mod ?P = j \<longrightarrow> bucket (seq ! i) = bucket (seq ! i'))" for j
    unfolding colsum [symmetric] class_monochromatic [symmetric]
    by (rule max4_eq_sum) (rule nonneg)+
  have mono: "(\<forall>j<?P. ?m j = class_count ?P ?n j) \<longleftrightarrow>
      (\<forall>i<?n. \<forall>i'<?n. i mod ?P = i' mod ?P \<longrightarrow> bucket (seq ! i) = bucket (seq ! i'))"
    unfolding col using P by (metis mod_less_divisor)
  note ratio_bounds [OF M_pos M_le]
  then show ?thesis using val one mono by blast
qed

theorem perfect_level_range_witness:
  "''ATCGATCG'' \<noteq> [] \<and> (1::int) \<le> 4
   \<and> getPerfectLevelSeq ''ATCGATCG'' 4 = Inr (Fin 1) \<and> (0::rat) < 1 \<and> (1::rat) \<le> 1"
proof -
  have h1: "''ATCGATCG'' \<noteq> []" and h2: "(1::int) \<le> 4" by simp_all
  have v: "getPerfectLevelSeq ''ATCGATCG'' 4 = Inr (Fin 1)" by code_simp
  from perfect_level_range [OF h1 h2] v show ?thesis by auto
qed


section \<open>The consensus repeat\<close>

lemma first_argmax_props:
  assumes "col \<noteq> []"
  shows "first_argmax col < length col"
    and "col ! first_argmax col = Max (set col)"
    and "i < first_argmax col \<Longrightarrow> col ! i < Max (set col)"
    and "i < length col \<Longrightarrow> col ! i \<le> Max (set col)"
proof -
  let ?P = "\<lambda>x. x \<noteq> Max (set col)"
  have "Max (set col) \<in> set col" using assms by (intro Max_in) auto
  then have "takeWhile ?P col \<noteq> col" by (simp add: takeWhile_eq_all_conv)
  moreover have "length (takeWhile ?P col) \<le> length col" by (rule length_takeWhile_le)
  ultimately show less: "first_argmax col < length col"
    unfolding first_argmax_def
    by (metis le_neq_implies_less takeWhile_eq_take take_all order_refl)
  from nth_length_takeWhile [of ?P col] less
  show "col ! first_argmax col = Max (set col)" by (simp add: first_argmax_def)
  show le: "col ! i \<le> Max (set col)" if "i < length col" for i
    using that by (intro Max_ge) auto
  show "col ! i < Max (set col)" if "i < first_argmax col"
  proof -
    from that have i: "i < length (takeWhile ?P col)" by (simp add: first_argmax_def)
    then have "takeWhile ?P col ! i \<in> set (takeWhile ?P col)" by (rule nth_mem)
    then have "?P (takeWhile ?P col ! i)" by (auto dest: set_takeWhileD)
    then have "col ! i \<noteq> Max (set col)" using i by (simp add: takeWhile_nth)
    moreover have "col ! i \<le> Max (set col)" using that less by (intro le) simp
    ultimately show ?thesis by simp
  qed
qed

lemma py_range_0: "py_range 0 p = map int [0..<nat p]"
  by (simp add: py_range_def)

lemma getRepeatSeq_value:
  assumes "getCongruenceMatrix seq p = Inr CM" "length CM = 4" "\<forall>r<4. length (CM ! r) = nat p"
  shows "\<exists>s. getRepeatSeq seq p = Inr s \<and> length s = nat p
           \<and> (\<forall>c<nat p. s ! c = ''GCAT'' ! min 3 (first_argmax [CM ! 0 ! c, CM ! 1 ! c, CM ! 2 ! c, CM ! 3 ! c]))"
proof -
  have hd: "hd CM = CM ! 0" using assms(2) by (cases CM) auto
  have col: "map (\<lambda>row. row ! c) CM = [CM ! 0 ! c, CM ! 1 ! c, CM ! 2 ! c, CM ! 3 ! c]" for c
    by (subst four_rows [OF assms(2)]) simp
  have idx: "argmax_axis0 CM ! c = first_argmax [CM ! 0 ! c, CM ! 1 ! c, CM ! 2 ! c, CM ! 3 ! c]"
    if "c < nat p" for c
    using that assms(3) by (simp add: argmax_axis0_def hd col)
  have sym: "(if k = 0 then CHR ''G'' else if k = 1 then CHR ''C''
              else if k = 2 then CHR ''A'' else CHR ''T'') = ''GCAT'' ! min 3 k" for k :: nat
    by (auto simp: nth_Cons' min_def)
  show ?thesis
    using assms(1) by (simp add: getRepeatSeq_def Let_def py_range_0 idx sym)
qed

lemma column_nth:
  assumes "r < 4"
  shows "[CM ! 0 ! c, CM ! 1 ! c, CM ! 2 ! c, CM ! 3 ! c] ! r = (CM :: matrix) ! r ! c"
proof -
  from assms have "r = 0 \<or> r = 1 \<or> r = 2 \<or> r = 3" by arith
  then show ?thesis by auto
qed

text \<open>
  Claim C9. For every sequence and every period \<open>p \<ge> 1\<close>, \<open>getRepeatSeq\<close> returns a
  string of \<open>p\<close> symbols; its symbol \<open>c\<close> is the one of G, C, A, T (in the order of
  the rows, T standing for the fourth row) whose row holds the maximum of column \<open>c\<close>
  of the congruence matrix, and the first such row when several hold it. On
  \<open>ATCGATCGATCGATCGATCG\<close> with period 4 the consensus is \<open>ATCG\<close> and the perfect
  level is 1.
\<close>

theorem consensus_repeat:
  "(1 \<le> p \<longrightarrow>
      (\<exists>CM s. getCongruenceMatrix seq p = Inr CM \<and> getRepeatSeq seq p = Inr s
         \<and> length s = nat p
         \<and> (\<forall>c<nat p. \<exists>r<4. s ! c = ''GCAT'' ! r
               \<and> (\<forall>r'<4. CM ! r' ! c \<le> CM ! r ! c)
               \<and> (\<forall>r'<r. CM ! r' ! c < CM ! r ! c))))
   \<and> getRepeatSeq ''ATCGATCGATCGATCGATCG'' 4 = Inr ''ATCG''
   \<and> getPerfectLevelSeq ''ATCGATCGATCGATCGATCG'' 4 = Inr (Fin 1)"
proof (intro conjI impI)
  assume p: "1 \<le> p"
  from getCongruenceMatrix_cells [OF p, of seq] obtain CM where
    run: "getCongruenceMatrix seq p = Inr CM" and len: "length CM = 4"
    and rows: "\<forall>r<4. length (CM ! r) = nat p"
    by blast
  from getRepeatSeq_value [OF run len rows] obtain s where
    s: "getRepeatSeq seq p = Inr s" "length s = nat p"
    and sym: "\<forall>c<nat p. s ! c = ''GCAT'' ! min 3 (first_argmax [CM ! 0 ! c, CM ! 1 ! c, CM ! 2 ! c, CM ! 3 ! c])"
    by blast
  have "\<exists>r<4. s ! c = ''GCAT'' ! r \<and> (\<forall>r'<4. CM ! r' ! c \<le> CM ! r ! c)
          \<and> (\<forall>r'<r. CM ! r' ! c < CM ! r ! c)" if c: "c < nat p" for c
  proof -
    let ?col = "[CM ! 0 ! c, CM ! 1 ! c, CM ! 2 ! c, CM ! 3 ! c]"
    let ?r = "first_argmax ?col"
    have ne: "?col \<noteq> []" by simp
    have r: "?r < 4" using first_argmax_props(1) [OF ne] by simp
    have top: "CM ! ?r ! c = Max (set ?col)"
      using first_argmax_props(2) [OF ne] by (simp only: column_nth [OF r])
    have "CM ! r' ! c \<le> CM ! ?r ! c" if "r' < 4" for r'
      using first_argmax_props(4) [OF ne, of r'] that
      unfolding top by (simp only: column_nth [OF that]) simp
    moreover have "CM ! r' ! c < CM ! ?r ! c" if "r' < ?r" for r'
    proof -
      from that r have r': "r' < 4" by simp
      show ?thesis
        using first_argmax_props(3) [OF ne that] unfolding top by (simp only: column_nth [OF r'])
    qed
    moreover have "s ! c = ''GCAT'' ! ?r" using sym c r by (simp add: min_def)
    ultimately show ?thesis using r by blast
  qed
  with run s show "\<exists>CM s. getCongruenceMatrix seq p = Inr CM \<and> getRepeatSeq seq p = Inr s
         \<and> length s = nat p
         \<and> (\<forall>c<nat p. \<exists>r<4. s ! c = ''GCAT'' ! r
               \<and> (\<forall>r'<4. CM ! r' ! c \<le> CM ! r ! c)
               \<and> (\<forall>r'<r. CM ! r' ! c < CM ! r ! c))"
    by blast
next
  show "getRepeatSeq ''ATCGATCGATCGATCGATCG'' 4 = Inr ''ATCG''" by code_simp
next
  show "getPerfectLevelSeq ''ATCGATCGATCGATCGATCG'' 4 = Inr (Fin 1)" by code_simp
qed

theorem consensus_repeat_witness:
  "(1::int) \<le> 3 \<and> getCongruenceMatrix ''GATTACA'' 3 = Inr [[1, 0, 0], [0, 0, 1], [1, 2, 0], [1, 0, 1]]
   \<and> getRepeatSeq ''GATTACA'' 3 = Inr ''GAC'' \<and> length ''GAC'' = nat 3"
proof -
  have v: "getRepeatSeq ''GATTACA'' 3 = Inr ''GAC''" by code_simp
  from consensus_repeat [of 3 "''GATTACA''"] v cm_GATTACA show ?thesis by auto
qed


section \<open>Loops that collect one score for each index\<close>

lemma py_for_collect:
  assumes "\<forall>i\<in>set js. \<exists>x. g i = Inr x"
  shows "\<exists>r. py_for (\<lambda>i acc. case g i of Inl e \<Rightarrow> Inl e | Inr x \<Rightarrow> Inr (acc @ [x])) js acc
               = Inr (acc @ r)
           \<and> length r = length js \<and> (\<forall>k<length js. g (js ! k) = Inr (r ! k))"
  using assms
proof (induction js arbitrary: acc)
  case Nil
  show ?case by simp
next
  case (Cons j js)
  from Cons.prems obtain x where x: "g j = Inr x" by auto
  from Cons.prems have "\<forall>i\<in>set js. \<exists>x. g i = Inr x" by simp
  from Cons.IH [OF this, of "acc @ [x]"] obtain r where
    r: "py_for (\<lambda>i acc. case g i of Inl e \<Rightarrow> Inl e | Inr x \<Rightarrow> Inr (acc @ [x])) js (acc @ [x])
          = Inr ((acc @ [x]) @ r)"
      "length r = length js" "\<forall>k<length js. g (js ! k) = Inr (r ! k)"
    by blast
  have "\<forall>k<length (j # js). g ((j # js) ! k) = Inr ((x # r) ! k)"
    using x r(3) by (auto simp: nth_Cons')
  with r(1,2) x show ?case
    by (intro exI [of _ "x # r"]) simp
qed

lemma getNDUSeq_returns:
  assumes "1 \<le> p"
  shows "\<exists>x. getNDUSeq seq p = Inr x"
proof -
  from getCongruenceMatrix_cells [OF assms, of seq] obtain f where
    "getCongruenceMatrix seq p = Inr f" by blast
  from getNDUSeq_value [OF assms this] show ?thesis by blast
qed

section \<open>The sliding windows\<close>

text \<open>
  Claim C10. For every sequence of length \<open>n\<close> and every period \<open>p \<ge> 1\<close>,
  \<open>getNDUWindowSeq\<close> raises nothing: with the window size \<open>W\<close> (given, or \<open>5 * p\<close>
  when it is not) it returns a list of \<open>max 0 (n - W + 1)\<close> scores, which is the
  empty list when \<open>W\<close> exceeds \<open>n\<close>.
\<close>

theorem window_scan_length:
  assumes "1 \<le> p"
  shows "\<exists>r. getNDUWindowSeq seq p W0 = Inr r
           \<and> int (length r) = max 0 (int (length seq) - (case W0 of None \<Rightarrow> 5 * p | Some w \<Rightarrow> w) + 1)
           \<and> (int (length seq) < (case W0 of None \<Rightarrow> 5 * p | Some w \<Rightarrow> w) \<longrightarrow> r = [])"
proof -
  define W where "W = (case W0 of None \<Rightarrow> 5 * p | Some w \<Rightarrow> w)"
  define e where "e = int (length seq) - W + 1"
  let ?g = "\<lambda>i. getNDUSeq (py_slice seq i (i + W)) p"
  have "\<forall>i\<in>set (py_range 0 e). \<exists>x. ?g i = Inr x"
    using getNDUSeq_returns [OF assms] by blast
  from py_for_collect [of "py_range 0 e" ?g "[]", OF this] obtain r where
    r: "py_for (\<lambda>i acc. case ?g i of Inl e \<Rightarrow> Inl e | Inr x \<Rightarrow> Inr (acc @ [x])) (py_range 0 e) []
          = Inr r" "length r = length (py_range 0 e)"
    by auto
  have run: "getNDUWindowSeq seq p W0 = Inr r"
    using r(1) by (simp add: getNDUWindowSeq_def Let_def W_def e_def)
  have len: "int (length r) = max 0 e"
    using r(2) by (simp add: py_range_def)
  then have "r = []" if "int (length seq) < W" using that by (simp add: e_def)
  with run len show ?thesis unfolding W_def [symmetric] e_def by blast
qed

theorem window_scan_length_witness:
  "(1::int) \<le> 2
   \<and> getNDUWindowSeq ''ATATATATAT'' 2 (Some 8) = Inr [Fin 3, Fin 3, Fin 3]
   \<and> int (length [Fin 3, Fin 3, Fin 3]) = max 0 (int (length ''ATATATATAT'') - 8 + 1)
   \<and> getNDUWindowSeq ''ATATATATAT'' 2 (Some 11) = Inr []"
proof -
  have h: "(1::int) \<le> 2" by simp
  have v1: "getNDUWindowSeq ''ATATATATAT'' 2 (Some 8) = Inr [Fin 3, Fin 3, Fin 3]"
    by code_simp
  from window_scan_length [OF h, of "''ATATATATAT''" "Some 11"]
  have v2: "getNDUWindowSeq ''ATATATATAT'' 2 (Some 11) = Inr []" by auto
  from v1 v2 show ?thesis by simp
qed


section \<open>What the scores do outside their preconditions\<close>

lemma getCongruenceMatrix_negative:
  "p < 0 \<Longrightarrow> getCongruenceMatrix seq p = Inl ValueError"
  by (simp add: getCongruenceMatrix_def np_zeros_def)

lemma getCongruenceMatrix_zero:
  "getCongruenceMatrix seq 0 = (if seq = [] then Inr (replicate 4 []) else Inl ZeroDivisionError)"
proof (cases seq)
  case Nil
  then show ?thesis by (simp add: getCongruenceMatrix_def np_zeros_def py_range_def)
next
  case (Cons a s)
  have "[0..<Suc (length s)] = 0 # [Suc 0..<Suc (length s)]"
    by (simp add: upt_conv_Cons del: upt_Suc)
  then have "py_range 0 (int (length (a # s))) = 0 # map int [Suc 0..<Suc (length s)]"
    by (simp add: py_range_def del: of_nat_Suc upt_Suc)
  then show ?thesis using Cons
    by (simp add: getCongruenceMatrix_def np_zeros_def cm_body_def py_mod_def del: upt_Suc)
qed

lemma getCongruenceMatrix_empty:
  assumes "1 \<le> p"
  shows "getCongruenceMatrix [] p = Inr (replicate 4 (replicate (nat p) 0))"
  using assms by (simp add: getCongruenceMatrix_def np_zeros_def py_range_def)

lemma scores_of_period_zero:
  "getNDUSeq seq 0 = Inl ZeroDivisionError" "getPerfectLevelSeq seq 0 = Inl ZeroDivisionError"
  by (simp_all add: getNDUSeq_def getPerfectLevelSeq_def getCongruenceMatrix_zero
      py_truediv_def amax_axis0_def numeral_eq_Suc)

lemma scores_of_negative_period:
  assumes "p < 0"
  shows "getNDUSeq seq p = Inl ValueError" "getPerfectLevelSeq seq p = Inl ValueError"
  using assms
  by (simp_all add: getNDUSeq_def getPerfectLevelSeq_def getCongruenceMatrix_negative)

lemma scores_of_empty_sequence:
  assumes "1 \<le> p"
  shows "getNDUSeq [] p = Inr NaN" "getPerfectLevelSeq [] p = Inr NaN"
proof -
  note cm = getCongruenceMatrix_empty [OF assms]
  show "getNDUSeq [] p = Inr NaN"
    unfolding getNDUSeq_value [OF assms cm]
    by (simp add: np_truediv_def less_Suc_eq numeral_eq_Suc)
  have len: "length (replicate 4 (replicate (nat p) (0::int))) = 4"
    and rows: "\<forall>r<4. length (replicate 4 (replicate (nat p) (0::int)) ! r) = nat p"
    by simp_all
  show "getPerfectLevelSeq [] p = Inr NaN"
    unfolding getPerfectLevelSeq_value [OF assms cm len rows]
    by (simp add: np_truediv_def)
qed

lemma scores_finite:
  assumes "1 \<le> p" "seq \<noteq> []"
  shows "\<exists>v. getNDUSeq seq p = Inr (Fin v)" "\<exists>v. getPerfectLevelSeq seq p = Inr (Fin v)"
proof -
  from getCongruenceMatrix_cells [OF assms(1), of seq] obtain CM where
    run: "getCongruenceMatrix seq p = Inr CM" and len: "length CM = 4"
    and rows: "\<forall>r<4. length (CM ! r) = nat p"
    by blast
  show "\<exists>v. getNDUSeq seq p = Inr (Fin v)"
    unfolding getNDUSeq_value [OF assms(1) run] using assms(2) by (simp add: np_truediv_def)
  show "\<exists>v. getPerfectLevelSeq seq p = Inr (Fin v)"
    unfolding getPerfectLevelSeq_value [OF assms(1) run len rows] using assms(2)
    by (simp add: np_truediv_def)
qed

text \<open>
  Claim C8 says that both scores reject a period below 1 or above the length of the
  sequence, and fail on an empty sequence. The module checks none of this. A period
  above the length gives a matrix with empty columns and a score all the same, and on
  an empty sequence the last division is numpy's \<open>0 / 0\<close>, which returns \<open>nan\<close>
  and raises nothing.
\<close>

theorem scoring_rejects_counterexample:
  "int (length ''AT'') < 3
   \<and> getNDUSeq ''AT'' 3 = Inr (Fin (5 / 6)) \<and> getPerfectLevelSeq ''AT'' 3 = Inr (Fin 1)
   \<and> getNDUSeq [] 1 = Inr NaN \<and> getPerfectLevelSeq [] 1 = Inr NaN"
proof (intro conjI)
  show "int (length ''AT'') < 3" by simp
  show "getNDUSeq ''AT'' 3 = Inr (Fin (5 / 6))" by code_simp
  show "getPerfectLevelSeq ''AT'' 3 = Inr (Fin 1)" by code_simp
  show "getNDUSeq [] 1 = Inr NaN" by code_simp
  show "getPerfectLevelSeq [] 1 = Inr NaN" by code_simp
qed

text \<open>
  Claim C8, amended. \<open>getNDUSeq\<close> and \<open>getPerfectLevelSeq\<close> raise when the period
  is below 1: a \<open>ValueError\<close> for a negative period, a \<open>ZeroDivisionError\<close> for the
  period 0. For a non-empty sequence and every period \<open>p \<ge> 1\<close>, also one greater
  than the length of the sequence, both return a finite score. For the empty sequence
  and a period \<open>p \<ge> 1\<close> both return \<open>nan\<close>.
\<close>

theorem scoring_preconditions:
  "(p < 0 \<longrightarrow> getNDUSeq seq p = Inl ValueError \<and> getPerfectLevelSeq seq p = Inl ValueError)
   \<and> (p = 0 \<longrightarrow> getNDUSeq seq p = Inl ZeroDivisionError
                \<and> getPerfectLevelSeq seq p = Inl ZeroDivisionError)
   \<and> (1 \<le> p \<and> seq \<noteq> [] \<longrightarrow>
         (\<exists>v. getNDUSeq seq p = Inr (Fin v)) \<and> (\<exists>v. getPerfectLevelSeq seq p = Inr (Fin v)))
   \<and> (1 \<le> p \<and> seq = [] \<longrightarrow> getNDUSeq seq p = Inr NaN \<and> getPerfectLevelSeq seq p = Inr NaN)"
  using scores_of_negative_period [of p seq] scores_of_period_zero [of seq]
    scores_finite [of p seq] scores_of_empty_sequence [of p]
  by blast

theorem scoring_preconditions_witness:
  "(-1::int) < 0 \<and> getNDUSeq ''AT'' (-1) = Inl ValueError
   \<and> getPerfectLevelSeq ''AT'' 0 = Inl ZeroDivisionError
   \<and> (1::int) \<le> 3 \<and> ''AT'' \<noteq> [] \<and> getNDUSeq ''AT'' 3 = Inr (Fin (5 / 6))
   \<and> getPerfectLevelSeq [] 1 = Inr NaN"
proof -
  have v: "getNDUSeq ''AT'' 3 = Inr (Fin (5 / 6))" by code_simp
  from scoring_preconditions [of "-1" "''AT''"] scoring_preconditions [of 0 "''AT''"]
    scoring_preconditions [of 3 "''AT''"] scoring_preconditions [of 1 "[]"] v
  show ?thesis by simp
qed


section \<open>The maximum of a list of scores and its first position\<close>

lemma fold_max_Fin:
  assumes "\<forall>y\<in>set rest. \<exists>q. y = Fin q"
  shows "\<exists>m. fold (\<lambda>item m. if np_gt item m then item else m) rest (Fin a) = Fin m
           \<and> Fin m \<in> set (Fin a # rest) \<and> a \<le> m \<and> (\<forall>q. Fin q \<in> set rest \<longrightarrow> q \<le> m)"
  using assms
proof (induction rest arbitrary: a)
  case Nil
  show ?case by simp
next
  case (Cons y rest)
  from Cons.prems obtain b where y: "y = Fin b" by auto
  from Cons.prems have rest: "\<forall>y\<in>set rest. \<exists>q. y = Fin q" by simp
  let ?a' = "if a < b then b else a"
  from Cons.IH [OF rest, of ?a'] obtain m where
    m: "fold (\<lambda>item m. if np_gt item m then item else m) rest (Fin ?a') = Fin m"
      "Fin m \<in> set (Fin ?a' # rest)" "?a' \<le> m" "\<forall>q. Fin q \<in> set rest \<longrightarrow> q \<le> m"
    by blast
  have "fold (\<lambda>item m. if np_gt item m then item else m) (y # rest) (Fin a) = Fin m"
    using m(1) y by (cases "a < b") simp_all
  moreover have "Fin m \<in> set (Fin a # y # rest)" using m(2) y by (auto split: if_splits)
  moreover have "a \<le> m" using m(3) by (simp split: if_splits)
  moreover have "\<forall>q. Fin q \<in> set (y # rest) \<longrightarrow> q \<le> m"
    using m(3,4) y by (auto split: if_splits)
  ultimately show ?case by blast
qed

lemma py_max_Fin:
  assumes "xs \<noteq> []" "\<forall>x\<in>set xs. \<exists>q. x = Fin q"
  shows "\<exists>m. py_max xs = Inr (Fin m) \<and> Fin m \<in> set xs \<and> (\<forall>q. Fin q \<in> set xs \<longrightarrow> q \<le> m)"
proof -
  from assms obtain a rest where xs: "xs = Fin a # rest" by (cases xs) auto
  with assms(2) have "\<forall>y\<in>set rest. \<exists>q. y = Fin q" by simp
  from fold_max_Fin [OF this, of a] show ?thesis
    unfolding xs py_max_def by auto
qed

lemma py_index_first:
  assumes "v \<in> set xs"
  shows "\<exists>i. py_index xs v = Inr i \<and> i < length xs \<and> xs ! i = v \<and> (\<forall>j<i. xs ! j \<noteq> v)"
  using assms
proof (induction xs)
  case Nil
  then show ?case by simp
next
  case (Cons x xs)
  show ?case
  proof (cases "x = v")
    case True
    then show ?thesis by simp
  next
    case False
    with Cons.prems have "v \<in> set xs" by simp
    from Cons.IH [OF this] obtain i where
      i: "py_index xs v = Inr i" "i < length xs" "xs ! i = v" "\<forall>j<i. xs ! j \<noteq> v" by blast
    have "\<forall>j<Suc i. (x # xs) ! j \<noteq> v"
      using False i(4) by (auto simp: nth_Cons')
    with False i(1,2,3) show ?thesis by (intro exI [of _ "Suc i"]) simp
  qed
qed

lemma argmax_scan:
  assumes "xs \<noteq> []" "\<forall>x\<in>set xs. \<exists>q. x = Fin q"
  shows "\<exists>m idx. py_max xs = Inr (Fin m) \<and> py_index xs (Fin m) = Inr idx
           \<and> idx < length xs \<and> xs ! idx = Fin m
           \<and> (\<forall>j<length xs. \<forall>q. xs ! j = Fin q \<longrightarrow> q \<le> m)
           \<and> (\<forall>j<idx. \<forall>q. xs ! j = Fin q \<longrightarrow> q < m)"
proof -
  from py_max_Fin [OF assms] obtain m where
    m: "py_max xs = Inr (Fin m)" "Fin m \<in> set xs" "\<forall>q. Fin q \<in> set xs \<longrightarrow> q \<le> m" by blast
  from py_index_first [OF m(2)] obtain idx where
    idx: "py_index xs (Fin m) = Inr idx" "idx < length xs" "xs ! idx = Fin m"
      "\<forall>j<idx. xs ! j \<noteq> Fin m" by blast
  have le: "q \<le> m" if "j < length xs" "xs ! j = Fin q" for j q
    using m(3) that by (metis nth_mem)
  have "q < m" if "j < idx" "xs ! j = Fin q" for j q
  proof -
    from that idx(2) have "q \<le> m" by (intro le [of j]) auto
    moreover from that idx(4) have "q \<noteq> m" by auto
    ultimately show ?thesis by simp
  qed
  with m(1) idx(1,2,3) le show ?thesis by blast
qed

lemma py_range_nth:
  "length (py_range a b) = nat (b - a)"
  "k < nat (b - a) \<Longrightarrow> py_range a b ! k = a + int k"
  by (simp_all add: py_range_def)

lemma py_range_set: "set (py_range a b) = {a..<b}"
proof -
  have img: "set (py_range a b) = (\<lambda>k. a + int k) ` {0..<nat (b - a)}"
    by (simp add: py_range_def)
  show ?thesis
  proof (intro set_eqI iffI)
    fix x assume "x \<in> set (py_range a b)"
    then show "x \<in> {a..<b}" unfolding img by auto
  next
    fix x assume x: "x \<in> {a..<b}"
    then have "x = a + int (nat (x - a))" "nat (x - a) \<in> {0..<nat (b - a)}" by auto
    then show "x \<in> set (py_range a b)" unfolding img by (rule image_eqI)
  qed
qed

section \<open>The scan up to a limit\<close>

lemma getNDUSeq_nonneg:
  assumes "1 \<le> p" "seq \<noteq> []"
  shows "\<exists>v. getNDUSeq seq p = Inr (Fin v) \<and> 0 \<le> v"
proof -
  from getCongruenceMatrix_cells [OF assms(1), of seq] obtain f where
    run: "getCongruenceMatrix seq p = Inr f" by blast
  show ?thesis
    unfolding getNDUSeq_value [OF assms(1) run] using assms(2)
    by (simp add: np_truediv_def sum_nonneg)
qed

lemma ndu_scan_value:
  "\<exists>r. ndu_scan seq mp = Inr (Fin 0 # r) \<and> length r = nat (mp - 2)
       \<and> (\<forall>k<nat (mp - 2). getNDUSeq seq (2 + int k) = Inr (r ! k))"
proof -
  have "\<forall>i\<in>set (py_range 2 mp). \<exists>x. getNDUSeq seq i = Inr x"
    using getNDUSeq_returns [of _ seq] by (simp add: py_range_set)
  from py_for_collect [of "py_range 2 mp" "getNDUSeq seq" "[Fin 0]", OF this]
  show ?thesis
    unfolding ndu_scan_def by (simp add: py_range_nth)
qed

lemma default_limit_min: "default_limit n = min (n div 2) 100"
  by (simp add: default_limit_def Let_def min_def)


text \<open>
  Claim C7 says that without a limit the periods 2 through \<open>min (n div 2) 100\<close>
  are scanned. The loops run over \<open>range(2, mp)\<close>, which leaves the limit out: for
  \<open>ATCATC\<close> the limit is 3, the list holds the placeholder and the score of the
  period 2 only, and the period 3, an exact repeat with the larger score, is never
  looked at.
\<close>

theorem auto_limit_scan_counterexample:
  "min (int (length ''ATCATC'') div 2) 100 = 3
   \<and> getNDUAllSeq ''ATCATC'' None = Inr [Fin 0, Fin (1 / 4)]
   \<and> getNDUSeq ''ATCATC'' 3 = Inr (Fin (3 / 2))
   \<and> getMaxNDUSeq ''ATCATC'' None = Inr (2, Fin (1 / 4))"
proof (intro conjI)
  show "min (int (length ''ATCATC'') div 2) 100 = 3" by simp
  show "getNDUAllSeq ''ATCATC'' None = Inr [Fin 0, Fin (1 / 4)]" by code_simp
  show "getNDUSeq ''ATCATC'' 3 = Inr (Fin (3 / 2))" by code_simp
  show "getMaxNDUSeq ''ATCATC'' None = Inr (2, Fin (1 / 4))" by code_simp
qed

text \<open>
  Claim C7, amended. For every non-empty sequence of length \<open>n\<close>, when no limit is
  given, \<open>getNDUAllSeq\<close> and \<open>getMaxNDUSeq\<close> scan the periods from 2 up to
  \<open>min (n div 2) 100 - 1\<close>: the limit itself is not scanned. The list starts with the
  score 0 for the period 1, has \<open>max 1 (min (n div 2) 100 - 1)\<close> entries, and its
  entry \<open>k \<ge> 1\<close> is the NDU of the period \<open>k + 1\<close>. \<open>getMaxNDUSeq\<close> returns the
  maximum of this list and its first position plus one.
\<close>

theorem auto_limit_scan:
  assumes "seq \<noteq> []"
  shows "\<exists>r. getNDUAllSeq seq None = Inr r
           \<and> int (length r) = max 1 (min (int (length seq) div 2) 100 - 1)
           \<and> r ! 0 = Fin 0
           \<and> (\<forall>k. 1 \<le> k \<and> k < length r \<longrightarrow> getNDUSeq seq (int k + 1) = Inr (r ! k))
           \<and> (\<exists>m idx. py_max r = Inr m \<and> py_index r m = Inr idx
                  \<and> getMaxNDUSeq seq None = Inr (int idx + 1, m))"
proof -
  define mp where "mp = default_limit (int (length seq))"
  from ndu_scan_value [of seq mp] obtain r where
    r: "ndu_scan seq mp = Inr (Fin 0 # r)" "length r = nat (mp - 2)"
      "\<forall>k<nat (mp - 2). getNDUSeq seq (2 + int k) = Inr (r ! k)"
    by blast
  let ?r = "Fin 0 # r"
  have all: "getNDUAllSeq seq None = Inr ?r"
    using r(1) by (simp add: getNDUAllSeq_def mp_def)
  have len: "int (length ?r) = max 1 (min (int (length seq) div 2) 100 - 1)"
    using r(2) by (simp add: mp_def default_limit_min)
  have entries: "getNDUSeq seq (int k + 1) = Inr (?r ! k)" if "1 \<le> k \<and> k < length ?r" for k
  proof -
    from that obtain k' where k': "k = Suc k'" by (cases k) auto
    with that r(2) have "k' < nat (mp - 2)" by simp
    with r(3) have "getNDUSeq seq (2 + int k') = Inr (r ! k')" by blast
    then show ?thesis by (simp add: k' add.commute)
  qed
  have scores: "\<forall>x\<in>set ?r. \<exists>q. x = Fin q"
  proof
    fix x assume "x \<in> set ?r"
    then consider "x = Fin 0" | k where "k < length r" "x = r ! k"
      by (auto simp: in_set_conv_nth)
    then show "\<exists>q. x = Fin q"
    proof cases
      case 1
      then show ?thesis by blast
    next
      case 2
      with r(2,3) have "getNDUSeq seq (2 + int k) = Inr x" by simp
      moreover from getNDUSeq_nonneg [OF _ assms, of "2 + int k"]
      obtain v where "getNDUSeq seq (2 + int k) = Inr (Fin v)" by auto
      ultimately show ?thesis by auto
    qed
  qed
  from argmax_scan [OF _ scores] obtain m idx where
    "py_max ?r = Inr (Fin m)" "py_index ?r (Fin m) = Inr idx" by blast
  then have "py_max ?r = Inr (Fin m) \<and> py_index ?r (Fin m) = Inr idx
      \<and> getMaxNDUSeq seq None = Inr (int idx + 1, Fin m)"
    using r(1) by (simp add: getMaxNDUSeq_def mp_def)
  with all len entries show ?thesis by (intro exI [of _ ?r]) auto
qed

theorem auto_limit_scan_witness:
  "''ATCGATCG'' \<noteq> []
   \<and> getNDUAllSeq ''ATCGATCG'' None = Inr [Fin 0, Fin 1, Fin (1 / 3)]
   \<and> int (length [Fin 0, Fin 1, Fin (1 / 3)]) = max 1 (min (int (length ''ATCGATCG'') div 2) 100 - 1)
   \<and> getNDUSeq ''ATCGATCG'' 3 = Inr (Fin (1 / 3))
   \<and> getMaxNDUSeq ''ATCGATCG'' None = Inr (2, Fin 1)"
proof -
  have h: "''ATCGATCG'' \<noteq> []" by simp
  have v: "getNDUAllSeq ''ATCGATCG'' None = Inr [Fin 0, Fin 1, Fin (1 / 3)]" by code_simp
  have w: "getMaxNDUSeq ''ATCGATCG'' None = Inr (2, Fin 1)" by code_simp
  from auto_limit_scan [OF h] v obtain
    len: "int (length [Fin 0, Fin 1, Fin (1 / 3)]) = max 1 (min (int (length ''ATCGATCG'') div 2) 100 - 1)"
    and entries: "\<forall>k. 1 \<le> k \<and> k < length [Fin 0, Fin 1, Fin (1 / 3)]
          \<longrightarrow> getNDUSeq ''ATCGATCG'' (int k + 1) = Inr ([Fin 0, Fin 1, Fin (1 / 3)] ! k)"
    by auto
  from entries [rule_format, of 2] have "getNDUSeq ''ATCGATCG'' 3 = Inr (Fin (1 / 3))" by simp
  with h v w len show ?thesis by blast
qed


section \<open>The best period of a range\<close>

lemma ndu_scan_scores:
  assumes "seq \<noteq> []"
  shows "\<exists>r. ndu_scan seq mp = Inr (Fin 0 # r) \<and> length r = nat (mp - 2)
           \<and> (\<forall>k<nat (mp - 2). \<exists>t. getNDUSeq seq (2 + int k) = Inr (Fin t) \<and> r ! k = Fin t)"
proof -
  from ndu_scan_value [of seq mp] obtain r where
    r: "ndu_scan seq mp = Inr (Fin 0 # r)" "length r = nat (mp - 2)"
      "\<forall>k<nat (mp - 2). getNDUSeq seq (2 + int k) = Inr (r ! k)"
    by blast
  have "\<exists>t. getNDUSeq seq (2 + int k) = Inr (Fin t) \<and> r ! k = Fin t" if "k < nat (mp - 2)" for k
  proof -
    from getNDUSeq_nonneg [OF _ assms, of "2 + int k"]
    obtain v where "getNDUSeq seq (2 + int k) = Inr (Fin v)" by auto
    moreover from r(3) that have "getNDUSeq seq (2 + int k) = Inr (r ! k)" by blast
    ultimately show ?thesis by auto
  qed
  with r(1,2) show ?thesis by blast
qed

lemma pr_scan_scores:
  assumes "seq \<noteq> []" "1 \<le> p1"
  shows "\<exists>r. py_for (\<lambda>period prRange. case getPerfectLevelSeq seq period of
                                 Inl e \<Rightarrow> Inl e
                               | Inr perfect \<Rightarrow> Inr (prRange @ [perfect])) (py_range p1 p2) [] = Inr r
           \<and> length r = nat (p2 - p1)
           \<and> (\<forall>k<nat (p2 - p1). \<exists>t. getPerfectLevelSeq seq (p1 + int k) = Inr (Fin t) \<and> r ! k = Fin t)"
proof -
  have fin: "\<exists>v. getPerfectLevelSeq seq i = Inr (Fin v)" if "p1 \<le> i" for i
    using scores_finite(2) [of i seq] assms that by simp
  then have "\<forall>i\<in>set (py_range p1 p2). \<exists>x. getPerfectLevelSeq seq i = Inr x"
    unfolding py_range_set by (metis atLeastLessThan_iff)
  from py_for_collect [of "py_range p1 p2" "getPerfectLevelSeq seq" "[]", OF this] obtain r where
    r: "py_for (\<lambda>period prRange. case getPerfectLevelSeq seq period of
                                 Inl e \<Rightarrow> Inl e
                               | Inr perfect \<Rightarrow> Inr (prRange @ [perfect])) (py_range p1 p2) [] = Inr r"
      "length r = nat (p2 - p1)"
      "\<forall>k<nat (p2 - p1). getPerfectLevelSeq seq (py_range p1 p2 ! k) = Inr (r ! k)"
    by (auto simp: py_range_nth)
  have "\<exists>t. getPerfectLevelSeq seq (p1 + int k) = Inr (Fin t) \<and> r ! k = Fin t"
    if "k < nat (p2 - p1)" for k
  proof -
    from fin [of "p1 + int k"] obtain v where "getPerfectLevelSeq seq (p1 + int k) = Inr (Fin v)"
      by auto
    moreover from r(3) that have "getPerfectLevelSeq seq (p1 + int k) = Inr (r ! k)"
      by (simp add: py_range_nth)
    ultimately show ?thesis by auto
  qed
  with r(1,2) show ?thesis by blast
qed

lemma getMaxPerfect_best:
  assumes "seq \<noteq> []" "1 \<le> p1" "p1 < p2"
  shows "\<exists>period s. getMaxPerfect seq p1 p2 = Inr (period, Fin s) \<and> p1 \<le> period \<and> period < p2
           \<and> getPerfectLevelSeq seq period = Inr (Fin s)
           \<and> (\<forall>q. p1 \<le> q \<and> q < p2 \<longrightarrow>
                 (\<exists>t. getPerfectLevelSeq seq q = Inr (Fin t) \<and> t \<le> s \<and> (q < period \<longrightarrow> t < s)))"
proof -
  from pr_scan_scores [OF assms(1,2), of p2] obtain r where
    r: "py_for (\<lambda>period prRange. case getPerfectLevelSeq seq period of
                                 Inl e \<Rightarrow> Inl e
                               | Inr perfect \<Rightarrow> Inr (prRange @ [perfect])) (py_range p1 p2) [] = Inr r"
      "length r = nat (p2 - p1)"
    and sc: "\<forall>k<nat (p2 - p1). \<exists>t. getPerfectLevelSeq seq (p1 + int k) = Inr (Fin t) \<and> r ! k = Fin t"
    by blast
  have ne: "r \<noteq> []" using r(2) assms(3) by auto
  have "\<forall>x\<in>set r. \<exists>q. x = Fin q"
    using sc r(2) by (metis in_set_conv_nth)
  from argmax_scan [OF ne this] obtain m idx where
    mx: "py_max r = Inr (Fin m)" "py_index r (Fin m) = Inr idx" "idx < length r" "r ! idx = Fin m"
    and le: "\<forall>j<length r. \<forall>q. r ! j = Fin q \<longrightarrow> q \<le> m"
    and lt: "\<forall>j<idx. \<forall>q. r ! j = Fin q \<longrightarrow> q < m"
    by blast
  let ?period = "int idx + p1"
  have run: "getMaxPerfect seq p1 p2 = Inr (?period, Fin m)"
    using r(1) mx(1,2) by (simp add: getMaxPerfect_def)
  have bounds: "p1 \<le> ?period" "?period < p2" using mx(3) r(2) by auto
  have at: "getPerfectLevelSeq seq ?period = Inr (Fin m)"
    using sc mx(3,4) r(2) by (auto simp: add.commute)
  have others: "\<exists>t. getPerfectLevelSeq seq q = Inr (Fin t) \<and> t \<le> m \<and> (q < ?period \<longrightarrow> t < m)"
    if q: "p1 \<le> q \<and> q < p2" for q
  proof -
    define k where "k = nat (q - p1)"
    have k: "k < nat (p2 - p1)" "q = p1 + int k" using q by (auto simp: k_def)
    with sc obtain t where t: "getPerfectLevelSeq seq q = Inr (Fin t)" "r ! k = Fin t" by auto
    have "t \<le> m" using le k(1) t(2) r(2) by auto
    moreover have "t < m" if "q < ?period"
    proof -
      from that k(2) have "k < idx" by simp
      with lt t(2) show ?thesis by blast
    qed
    ultimately show ?thesis using t(1) by blast
  qed
  from run bounds at others show ?thesis by blast
qed

lemma getMaxNDUSeq_best:
  assumes "seq \<noteq> []"
  shows "\<exists>period s. getMaxNDUSeq seq mp0 = Inr (period, Fin s)
           \<and> (\<forall>q. 2 \<le> q \<and> q < (case mp0 of None \<Rightarrow> min (int (length seq) div 2) 100 | Some m \<Rightarrow> m) \<longrightarrow>
                 (\<exists>t. getNDUSeq seq q = Inr (Fin t) \<and> t \<le> s \<and> (q < period \<longrightarrow> t < s)))
           \<and> ((period = 1 \<and> s = 0)
                \<or> (2 \<le> period \<and> period < (case mp0 of None \<Rightarrow> min (int (length seq) div 2) 100 | Some m \<Rightarrow> m)
                     \<and> 0 < s \<and> getNDUSeq seq period = Inr (Fin s)))"
proof -
  define mp where "mp = (case mp0 of None \<Rightarrow> min (int (length seq) div 2) 100 | Some m \<Rightarrow> m)"
  have mp: "mp = (case mp0 of None \<Rightarrow> default_limit (int (length seq)) | Some m \<Rightarrow> m)"
    by (simp add: mp_def default_limit_min split: option.splits)
  from ndu_scan_scores [OF assms(1), of mp] obtain r where
    r: "ndu_scan seq mp = Inr (Fin 0 # r)" "length r = nat (mp - 2)"
    and sc: "\<forall>k<nat (mp - 2). \<exists>t. getNDUSeq seq (2 + int k) = Inr (Fin t) \<and> r ! k = Fin t"
    by blast
  let ?r = "Fin 0 # r"
  have "\<forall>x\<in>set r. \<exists>q. x = Fin q"
    using sc r(2) by (metis in_set_conv_nth)
  then have "\<forall>x\<in>set ?r. \<exists>q. x = Fin q" by simp
  from argmax_scan [OF _ this] obtain m idx where
    mx: "py_max ?r = Inr (Fin m)" "py_index ?r (Fin m) = Inr idx" "idx < length ?r" "?r ! idx = Fin m"
    and le: "\<forall>j<length ?r. \<forall>q. ?r ! j = Fin q \<longrightarrow> q \<le> m"
    and lt: "\<forall>j<idx. \<forall>q. ?r ! j = Fin q \<longrightarrow> q < m"
    by blast
  let ?period = "int idx + 1"
  have run: "getMaxNDUSeq seq mp0 = Inr (?period, Fin m)"
    using r(1) mx(1,2) by (simp add: getMaxNDUSeq_def mp [symmetric])
  have others: "\<exists>t. getNDUSeq seq q = Inr (Fin t) \<and> t \<le> m \<and> (q < ?period \<longrightarrow> t < m)"
    if q: "2 \<le> q \<and> q < mp" for q
  proof -
    define k where "k = nat (q - 2)"
    have k: "k < nat (mp - 2)" "q = 2 + int k" using q by (auto simp: k_def)
    with sc obtain t where t: "getNDUSeq seq q = Inr (Fin t)" "r ! k = Fin t" by auto
    then have t': "?r ! Suc k = Fin t" by simp
    have "t \<le> m" using le [rule_format, of "Suc k" t] k(1) t' r(2) by simp
    moreover have "t < m" if "q < ?period"
    proof -
      from that k(2) have "Suc k < idx" by simp
      with lt t' show ?thesis by blast
    qed
    ultimately show ?thesis using t(1) by blast
  qed
  have place: "(?period = 1 \<and> m = 0)
      \<or> (2 \<le> ?period \<and> ?period < mp \<and> 0 < m \<and> getNDUSeq seq ?period = Inr (Fin m))"
  proof (cases idx)
    case 0
    with mx(4) show ?thesis by simp
  next
    case (Suc k)
    with mx(3) r(2) have k: "k < nat (mp - 2)" by simp
    with sc obtain t where t: "getNDUSeq seq (2 + int k) = Inr (Fin t)" "r ! k = Fin t" by auto
    with mx(4) Suc have tm: "t = m" by simp
    have "0 < m" using lt [rule_format, of 0 0] Suc by simp
    moreover have "?period = 2 + int k" using Suc by simp
    ultimately show ?thesis using k t(1) tm by auto
  qed
  from run others place show ?thesis unfolding mp_def by blast
qed

text \<open>
  Claim C1 says that every best-period search returns a period of the scanned range.
  \<open>getMaxNDUSeq\<close> takes the maximum of a list that starts with the score 0 of the
  period 1, which is not scanned, and the first maximum wins: when no scanned period
  has a positive NDU it returns the period 1. For \<open>GGCCAATT\<close> and the limit 3 the
  only scanned period is 2, its NDU is 0, and the period returned is 1.
\<close>

theorem best_period_search_counterexample:
  "py_range 2 3 = [2]
   \<and> getNDUSeq ''GGCCAATT'' 2 = Inr (Fin 0)
   \<and> getMaxNDUSeq ''GGCCAATT'' (Some 3) = Inr (1, Fin 0)"
proof (intro conjI)
  show "py_range 2 3 = [2]" by code_simp
  show "getNDUSeq ''GGCCAATT'' 2 = Inr (Fin 0)" by code_simp
  show "getMaxNDUSeq ''GGCCAATT'' (Some 3) = Inr (1, Fin 0)" by code_simp
qed

text \<open>
  Claim C1, amended. For every non-empty sequence:
  \<^item> \<open>getMaxPerfect seq p1 p2\<close> with \<open>1 \<le> p1 < p2\<close> scans the periods from \<open>p1\<close>
    up to \<open>p2 - 1\<close> and returns one of them with its perfect level, which is the
    maximum over the scanned periods, and no earlier scanned period reaches it;
  \<^item> \<open>getMaxNDUSeq\<close> returns the maximum of 0 and the NDU of the scanned periods,
    from 2 up to the limit minus one. The period returned is 1 with the score 0 when
    no scanned period has a positive NDU; otherwise it is the first scanned period
    whose NDU is the maximum.
  Nothing is said here of \<open>getMaxPRSeq\<close>.
\<close>

theorem best_period_search:
  assumes "seq \<noteq> []"
  shows "(1 \<le> p1 \<and> p1 < p2 \<longrightarrow>
           (\<exists>period s. getMaxPerfect seq p1 p2 = Inr (period, Fin s) \<and> p1 \<le> period \<and> period < p2
              \<and> getPerfectLevelSeq seq period = Inr (Fin s)
              \<and> (\<forall>q. p1 \<le> q \<and> q < p2 \<longrightarrow>
                    (\<exists>t. getPerfectLevelSeq seq q = Inr (Fin t) \<and> t \<le> s \<and> (q < period \<longrightarrow> t < s)))))
       \<and> (\<exists>period s. getMaxNDUSeq seq mp0 = Inr (period, Fin s)
              \<and> (\<forall>q. 2 \<le> q \<and> q < (case mp0 of None \<Rightarrow> min (int (length seq) div 2) 100 | Some m \<Rightarrow> m) \<longrightarrow>
                    (\<exists>t. getNDUSeq seq q = Inr (Fin t) \<and> t \<le> s \<and> (q < period \<longrightarrow> t < s)))
              \<and> ((period = 1 \<and> s = 0)
                   \<or> (2 \<le> period \<and> period < (case mp0 of None \<Rightarrow> min (int (length seq) div 2) 100 | Some m \<Rightarrow> m)
                        \<and> 0 < s \<and> getNDUSeq seq period = Inr (Fin s))))"
  using getMaxPerfect_best [OF assms, of p1 p2] getMaxNDUSeq_best [OF assms, of mp0]
  by blast

theorem best_period_search_witness:
  "''ATATATATAT'' \<noteq> [] \<and> (1::int) \<le> 2 \<and> (2::int) < 5
   \<and> getMaxPerfect ''ATATATATAT'' 2 5 = Inr (2, Fin 1)
   \<and> getPerfectLevelSeq ''ATATATATAT'' 2 = Inr (Fin 1)
   \<and> getMaxNDUSeq ''ATATATATAT'' None = Inr (2, Fin (15 / 4))"
proof -
  have h: "''ATATATATAT'' \<noteq> []" by simp
  have v: "getMaxPerfect ''ATATATATAT'' 2 5 = Inr (2, Fin 1)" by code_simp
  have w: "getMaxNDUSeq ''ATATATATAT'' None = Inr (2, Fin (15 / 4))" by code_simp
  from best_period_search [OF h, of 2 5 None] v
  have "getPerfectLevelSeq ''ATATATATAT'' 2 = Inr (Fin 1)" by auto
  with h v w show ?thesis by simp
qed

text \<open>
  The loop of \<open>getMaxPRSeq\<close> scores the limit and not the period of the round: for
  \<open>ATATATATAT\<close> it returns the period 2 with the perfect level of the period 5, while
  the perfect levels of the scanned periods 2, 3 and 4 are 1, 3/5 and 1.
\<close>

lemma getMaxPRSeq_scores_the_limit:
  "getMaxPRSeq ''ATATATATAT'' = Inr (2, Fin (1 / 2))
   \<and> getPerfectLevelSeq ''ATATATATAT'' 5 = Inr (Fin (1 / 2))
   \<and> getPRRangeSeq ''ATATATATAT'' 2 5 = Inr [Fin 1, Fin (3 / 5), Fin 1]"
proof (intro conjI)
  show "getMaxPRSeq ''ATATATATAT'' = Inr (2, Fin (1 / 2))" by code_simp
  show "getPerfectLevelSeq ''ATATATATAT'' 5 = Inr (Fin (1 / 2))" by code_simp
  show "getPRRangeSeq ''ATATATATAT'' 2 5 = Inr [Fin 1, Fin (3 / 5), Fin 1]" by code_simp
qed


section \<open>The scans of a range and the top periods\<close>

text \<open>
  \<open>getNDURangeSeq\<close> returns one score for each period from \<open>p1\<close> to \<open>p2\<close>, and
  \<open>getPRRangeSeq\<close> one for each period from \<open>p1\<close> to \<open>p2 - 1\<close>.
\<close>

lemma getNDURangeSeq_scan:
  assumes "1 \<le> p1"
  shows "\<exists>r. getNDURangeSeq seq p1 p2 = Inr r \<and> length r = nat (p2 + 1 - p1)
           \<and> (\<forall>k<nat (p2 + 1 - p1). getNDUSeq seq (p1 + int k) = Inr (r ! k))"
proof -
  have "\<exists>x. getNDUSeq seq i = Inr x" if "p1 \<le> i" for i
    using getNDUSeq_returns [of i seq] assms that by simp
  then have "\<forall>i\<in>set (py_range p1 (p2 + 1)). \<exists>x. getNDUSeq seq i = Inr x"
    unfolding py_range_set by (metis atLeastLessThan_iff)
  from py_for_collect [of "py_range p1 (p2 + 1)" "getNDUSeq seq" "[]", OF this]
  show ?thesis
    unfolding getNDURangeSeq_def by (auto simp: py_range_nth)
qed

lemma getPRRangeSeq_scan:
  assumes "seq \<noteq> []" "1 \<le> p1"
  shows "\<exists>r. getPRRangeSeq seq p1 p2 = Inr r \<and> length r = nat (p2 - p1)
           \<and> (\<forall>k<nat (p2 - p1). getPerfectLevelSeq seq (p1 + int k) = Inr (r ! k))"
  using pr_scan_scores [OF assms, of p2] unfolding getPRRangeSeq_def by metis

text \<open>
  Claim C5. For every non-empty sequence and \<open>p1 \<le> p2\<close>, \<open>getNDURangeSeq\<close> and
  \<open>getPRRangeSeq\<close> each return \<open>p2 - p1 + 1\<close> scores, the score \<open>k\<close> being that of
  the period \<open>p1 + k\<close>. The code of \<open>getPRRangeSeq\<close> loops over \<open>range(p1, p2)\<close>
  where \<open>getNDURangeSeq\<close> loops over \<open>range(p1, p2+1)\<close>: for \<open>ATATATATAT\<close> and the
  periods 2 to 4 it returns two perfect levels, those of the periods 2 and 3, and
  leaves out the period 4, while \<open>getNDURangeSeq\<close> returns the three NDUs.
\<close>

theorem range_scan_failing_input:
  "getPRRangeSeq ''ATATATATAT'' 2 4 = Inr [Fin 1, Fin (3 / 5)]
   \<and> getPerfectLevelSeq ''ATATATATAT'' 4 = Inr (Fin 1)
   \<and> getNDURangeSeq ''ATATATATAT'' 2 4 = Inr [Fin (15 / 4), Fin (29 / 30), Fin (79 / 40)]"
proof (intro conjI)
  show "getPRRangeSeq ''ATATATATAT'' 2 4 = Inr [Fin 1, Fin (3 / 5)]" by code_simp
  show "getPerfectLevelSeq ''ATATATATAT'' 4 = Inr (Fin 1)" by code_simp
  show "getNDURangeSeq ''ATATATATAT'' 2 4 = Inr [Fin (15 / 4), Fin (29 / 30), Fin (79 / 40)]"
    by code_simp
qed

text \<open>
  Claim C6. For every \<open>n \<ge> 1\<close>, \<open>getTopMaxPeriods\<close> and \<open>getTopMaxPerfects\<close>
  return the periods of the \<open>n\<close> largest scores in ascending order of score, the last
  one being the period of the largest score. \<open>getLargests\<close> always slices the three
  largest scores and reads the first \<open>n\<close> of them. For \<open>ATATATATAT\<close> and the periods
  2 to 6 the NDU is largest at the period 2; with \<open>n = 1\<close> the code returns the period
  6, which has the third largest NDU, with \<open>n = 2\<close> the periods of the third and the
  second largest, and with \<open>n = 4\<close> it raises an \<open>IndexError\<close>.
\<close>

theorem top_periods_failing_input:
  "getNDURangeSeq ''ATATATATAT'' 2 6
     = Inr [Fin (15 / 4), Fin (29 / 30), Fin (79 / 40), Fin (1 / 2), Fin (83 / 60)]
   \<and> getTopMaxPeriods ''ATATATATAT'' 2 6 1 = Inr ([6], 6)
   \<and> getTopMaxPeriods ''ATATATATAT'' 2 6 2 = Inr ([6, 4], 4)
   \<and> getTopMaxPeriods ''ATATATATAT'' 2 6 3 = Inr ([6, 4, 2], 2)
   \<and> getTopMaxPeriods ''ATATATATAT'' 2 6 4 = Inl IndexError"
proof (intro conjI)
  show "getNDURangeSeq ''ATATATATAT'' 2 6
     = Inr [Fin (15 / 4), Fin (29 / 30), Fin (79 / 40), Fin (1 / 2), Fin (83 / 60)]" by code_simp
  show "getTopMaxPeriods ''ATATATATAT'' 2 6 1 = Inr ([6], 6)" by code_simp
  show "getTopMaxPeriods ''ATATATATAT'' 2 6 2 = Inr ([6, 4], 4)" by code_simp
  show "getTopMaxPeriods ''ATATATATAT'' 2 6 3 = Inr ([6, 4, 2], 2)" by code_simp
  show "getTopMaxPeriods ''ATATATATAT'' 2 6 4 = Inl IndexError" by code_simp
qed

text \<open>
  The example in the comment of \<open>getLargests\<close>, and the same list with \<open>n = 1\<close>:
  the position returned is that of 12 and not that of the largest number 14.
\<close>

lemma getLargests_example:
  "getLargests (map Fin [0, 2, 12, 3, 14, 5, 9, 2, 13, 4]) 3
     = Inr ([Fin 12, Fin 13, Fin 14], [2, 8, 4])
   \<and> getLargests (map Fin [0, 2, 12, 3, 14, 5, 9, 2, 13, 4]) 1
     = Inr ([Fin 12, Fin 13, Fin 14], [2])"
proof (intro conjI)
  show "getLargests (map Fin [0, 2, 12, 3, 14, 5, 9, 2, 13, 4]) 3
     = Inr ([Fin 12, Fin 13, Fin 14], [2, 8, 4])" by code_simp
  show "getLargests (map Fin [0, 2, 12, 3, 14, 5, 9, 2, 13, 4]) 1
     = Inr ([Fin 12, Fin 13, Fin 14], [2])" by code_simp
qed

lemma getTopMaxPerfects_example:
  "getPRRangeSeq ''ATATATATAT'' 2 6 = Inr [Fin 1, Fin (3 / 5), Fin 1, Fin (1 / 2)]
   \<and> getTopMaxPerfects ''ATATATATAT'' 2 6 1 = Inr ([3], 3)"
proof (intro conjI)
  show "getPRRangeSeq ''ATATATATAT'' 2 6 = Inr [Fin 1, Fin (3 / 5), Fin 1, Fin (1 / 2)]"
    by code_simp
  show "getTopMaxPerfects ''ATATATATAT'' 2 6 1 = Inr ([3], 3)" by code_simp
qed

end
